theory Spec2Isabelle
  imports Main
begin

section \<open>Offline action queue and synchronisation (MockOfflineService)\<close>

text \<open>
  The development embeds \<^verbatim>\<open>MockOfflineService\<close> and the parts of its base class
  \<^verbatim>\<open>BaseOfflineService\<close> that it uses. Modelling decisions:
  \<^item> The actions of the queue are JavaScript objects that are shared between
    \<^verbatim>\<open>this.actionQueue\<close> and the local array \<^verbatim>\<open>unsyncedActions\<close> of a pass, and
    they are mutated in place (\<^verbatim>\<open>synced = true\<close>, \<^verbatim>\<open>retryCount++\<close>). The model
    therefore keeps an explicit store: \<open>heap\<close> maps a reference to the object,
    and the queue is a list of references. \<^verbatim>\<open>markActionSynced\<close> and \<^verbatim>\<open>removeAction\<close>
    look an action up by its id, as the source does, so two queued objects with the
    same id are told apart by the model as they are by the code.
  \<^item> \<^verbatim>\<open>Date.now()\<close> and \<^verbatim>\<open>Math.random()\<close> are inputs of the operation that reads them.
  \<^item> \<^verbatim>\<open>JSON.stringify\<close> of a value is represented by the value itself (\<open>stored\<close>);
    for the queue it is the list of the objects' contents at the time of the call.
    Serialisation is taken not to throw.
  \<^item> Every operation runs to completion before the next starts: calls that interleave
    at an \<^verbatim>\<open>await\<close> are outside the model. Console output is not modelled.
  \<^item> A pass records, beside its result, the calls it makes to \<^verbatim>\<open>processAction\<close>: the
    reference submitted and whether the call returned. This list is the observation
    that the statements about submission and order are about.
\<close>

subsection \<open>JavaScript values and entity records\<close>

datatype jsval = JUndefined | JNull | JBool bool | JNum int | JStr string

text \<open>An entity record: property name to value; a missing property reads as \<^verbatim>\<open>undefined\<close>.\<close>

type_synonym jsobj = "string \<rightharpoonup> jsval"

fun truthy :: "jsval \<Rightarrow> bool" where
  "truthy JUndefined = False"
| "truthy JNull = False"
| "truthy (JBool b) = b"
| "truthy (JNum n) = (n \<noteq> 0)"
| "truthy (JStr s) = (s \<noteq> [])"

definition getProp :: "jsobj \<Rightarrow> string \<Rightarrow> jsval" where
  "getProp ob k = (case ob k of None \<Rightarrow> JUndefined | Some v \<Rightarrow> v)"

text \<open>\<^verbatim>\<open>a || b\<close>\<close>

definition js_or :: "jsval \<Rightarrow> jsval \<Rightarrow> jsval" where
  "js_or a b = (if truthy a then a else b)"

text \<open>\<^verbatim>\<open>a > b\<close> on numbers, where \<open>None\<close> is \<^verbatim>\<open>NaN\<close>: every comparison with it is false.\<close>

fun js_gt :: "int option \<Rightarrow> int option \<Rightarrow> bool" where
  "js_gt (Some a) (Some b) = (a > b)"
| "js_gt _ _ = False"

subsection \<open>Conflict resolution\<close>

text \<open>
  \<^verbatim>\<open>resolveConflicts(localData, serverData)\<close>. An absent side (\<^verbatim>\<open>null\<close>,
  \<^verbatim>\<open>undefined\<close>) is \<open>None\<close>. \<^verbatim>\<open>new Date(v).getTime()\<close> belongs to the platform and is
  the parameter \<open>getTime\<close> (\<open>None\<close> for an invalid date, \<^verbatim>\<open>NaN\<close>).
  The spread \<^verbatim>\<open>{...localData, ...serverData, id: ...}\<close> is the map of the local
  properties overridden by the server's, with \<^verbatim>\<open>id\<close> set last.
\<close>

definition resolveConflicts ::
  "(jsval \<Rightarrow> int option) \<Rightarrow> jsobj option \<Rightarrow> jsobj option \<Rightarrow> jsobj option" where
  "resolveConflicts getTime localData serverData =
     (case localData of
        None \<Rightarrow> serverData
      | Some l \<Rightarrow>
          (case serverData of
             None \<Rightarrow> localData
           | Some s \<Rightarrow>
               if truthy (getProp l ''updated_at'') \<and> truthy (getProp s ''updated_at'') then
                 (let localTime = getTime (getProp l ''updated_at'');
                      serverTime = getTime (getProp s ''updated_at'')
                  in if js_gt localTime serverTime then localData else serverData)
               else
                 Some ((l ++ s)(''id'' \<mapsto> js_or (getProp l ''id'') (getProp s ''id'')))))"

text \<open>A concrete reading of dates for evaluation: a number is its own time in milliseconds.\<close>

fun numTime :: "jsval \<Rightarrow> int option" where
  "numTime (JNum n) = Some n"
| "numTime _ = None"

subsection \<open>Queued actions and the state of the service\<close>

datatype action_type = CREATE | UPDATE | DELETE

record OfflineAction =
  id' :: string
  type :: action_type
  entity :: string
  entityId :: string
  data :: jsobj
  timestamp :: nat
  synced :: bool
  retryCount :: nat

text \<open>The argument of \<^verbatim>\<open>queueAction\<close>: an action without id, timestamp, synced, retryCount.\<close>

record action_input =
  in_type :: action_type
  in_entity :: string
  in_entityId :: string
  in_data :: jsobj

datatype stored = SQueue "OfflineAction list" | SNum nat

record state =
  heap :: "nat \<Rightarrow> OfflineAction"
  nextRef :: nat
  actionQueue :: "nat list"
  storage :: "string \<rightharpoonup> stored"
  localStorage :: "(string \<rightharpoonup> stored) option"
  quotaExceeded :: "string \<Rightarrow> stored \<Rightarrow> bool"
  isOnlineStatus :: bool
  syncInProgress :: bool
  timers :: "nat list"

text \<open>
  \<open>localStorage\<close> is \<open>None\<close> where \<^verbatim>\<open>window.localStorage\<close> does not exist;
  \<open>quotaExceeded k v\<close> says that \<^verbatim>\<open>localStorage.setItem(k, v)\<close> throws.
  \<open>timers\<close> holds the delays of the \<^verbatim>\<open>syncData\<close> calls scheduled with \<^verbatim>\<open>setTimeout\<close>.
\<close>

definition STORAGE_PREFIX :: string where
  "STORAGE_PREFIX = ''agroclash_offline_''"

definition isOnline :: "state \<Rightarrow> bool" where
  "isOnline s = isOnlineStatus s"

definition storeData :: "string \<Rightarrow> stored \<Rightarrow> state \<Rightarrow> state" where
  "storeData key compressedData s =
     (let storageKey = STORAGE_PREFIX @ key;
          s1 = s\<lparr>storage := (storage s)(storageKey \<mapsto> compressedData)\<rparr>
      in case localStorage s1 of
           None \<Rightarrow> s1
         | Some ls \<Rightarrow>
             if quotaExceeded s1 storageKey compressedData then s1
             else s1\<lparr>localStorage := Some (ls(storageKey \<mapsto> compressedData))\<rparr>)"

text \<open>\<^verbatim>\<open>JSON.stringify(this.actionQueue)\<close>: the contents of the queued objects, in order.\<close>

definition queueContents :: "state \<Rightarrow> OfflineAction list" where
  "queueContents s = map (heap s) (actionQueue s)"

definition persistQueue :: "state \<Rightarrow> state" where
  "persistQueue s = storeData ''actionQueue'' (SQueue (queueContents s)) s"

subsection \<open>Identifiers\<close>

fun digit :: "nat \<Rightarrow> char" where
  "digit n = char_of (48 + n)"

fun show_nat :: "nat \<Rightarrow> string" where
  "show_nat n = (if n < 10 then [digit n] else show_nat (n div 10) @ [digit (n mod 10)])"

text \<open>
  \<^verbatim>\<open>`offline_${Date.now()}_${Math.random().toString(36).substr(2, 9)}`\<close>; the random
  suffix is an input.
\<close>

declare show_nat.simps [simp del]

definition generateId :: "nat \<Rightarrow> string \<Rightarrow> string" where
  "generateId now rnd = ''offline_'' @ show_nat now @ ''_'' @ rnd"

subsection \<open>Queue operations\<close>

record queue_env =
  id_now :: nat
  id_random :: string
  ts_now :: nat

text \<open>
  \<^verbatim>\<open>queueAction\<close> allocates the new object, pushes it, stores the queue and, when
  online, schedules a \<^verbatim>\<open>syncData\<close> after 100 ms. Its promise resolves to \<^verbatim>\<open>undefined\<close>.
\<close>

definition queueAction :: "queue_env \<Rightarrow> action_input \<Rightarrow> state \<Rightarrow> jsval \<times> state" where
  "queueAction env action s =
     (let queuedAction = \<lparr> id' = generateId (id_now env) (id_random env),
                            type = in_type action,
                            entity = in_entity action,
                            entityId = in_entityId action,
                            data = in_data action,
                            timestamp = ts_now env,
                            synced = False,
                            retryCount = 0 \<rparr>;
          r = nextRef s;
          s1 = s\<lparr>heap := (heap s)(r := queuedAction), nextRef := Suc r\<rparr>;
          s2 = s1\<lparr>actionQueue := actionQueue s1 @ [r]\<rparr>;
          s3 = persistQueue s2;
          s4 = (if isOnline s3 then s3\<lparr>timers := timers s3 @ [100]\<rparr> else s3)
      in (JUndefined, s4))"

definition getQueuedActions :: "state \<Rightarrow> nat list" where
  "getQueuedActions s = actionQueue s"

text \<open>\<^verbatim>\<open>Array.prototype.findIndex\<close>: the first index whose element satisfies \<open>p\<close>, or \<open>-1\<close>.\<close>

fun findIndex :: "('a \<Rightarrow> bool) \<Rightarrow> 'a list \<Rightarrow> int" where
  "findIndex p [] = - 1"
| "findIndex p (x # xs) =
     (if p x then 0 else (let i = findIndex p xs in if i = - 1 then - 1 else i + 1))"

text \<open>\<^verbatim>\<open>xs.splice(i, 1)\<close>\<close>

definition splice1 :: "nat \<Rightarrow> 'a list \<Rightarrow> 'a list" where
  "splice1 i xs = take i xs @ drop (Suc i) xs"

definition markActionSynced :: "string \<Rightarrow> state \<Rightarrow> state" where
  "markActionSynced actionId s =
     (let actionIndex = findIndex (\<lambda>r. id' (heap s r) = actionId) (actionQueue s)
      in if actionIndex > - 1 then
           (let r = actionQueue s ! nat actionIndex;
                s1 = s\<lparr>heap := (heap s)(r := (heap s r)\<lparr>synced := True\<rparr>)\<rparr>
            in persistQueue s1)
         else s)"

definition removeAction :: "string \<Rightarrow> state \<Rightarrow> state" where
  "removeAction actionId s =
     (let actionIndex = findIndex (\<lambda>r. id' (heap s r) = actionId) (actionQueue s)
      in if actionIndex > - 1 then
           (let s1 = s\<lparr>actionQueue := splice1 (nat actionIndex) (actionQueue s)\<rparr>
            in persistQueue s1)
         else s)"

definition clearQueue :: "state \<Rightarrow> state" where
  "clearQueue s = persistQueue (s\<lparr>actionQueue := []\<rparr>)"

subsection \<open>A synchronisation pass\<close>

fun type_name :: "action_type \<Rightarrow> string" where
  "type_name CREATE = ''CREATE''"
| "type_name UPDATE = ''UPDATE''"
| "type_name DELETE = ''DELETE''"

text \<open>
  \<^verbatim>\<open>processAction\<close>: the argument \<open>simulatedFailure\<close> is the outcome of
  \<^verbatim>\<open>Math.random() < 0.1\<close> for this call. The result is the text of the thrown error
  as \<^verbatim>\<open>`${error}`\<close> prints it, or unit. The five \<^verbatim>\<open>sync...Action\<close> methods only log.
\<close>

definition processAction :: "bool \<Rightarrow> OfflineAction \<Rightarrow> string + unit" where
  "processAction simulatedFailure action =
     (if simulatedFailure then Inl ''Error: Simulated network error''
      else if entity action = ''plot'' then Inr ()
      else if entity action = ''crop'' then Inr ()
      else if entity action = ''notification'' then Inr ()
      else if entity action = ''xp_log'' then Inr ()
      else if entity action = ''user'' then Inr ()
      else Inl (''Error: Unknown entity type: '' @ entity action))"

definition failedMessage :: "OfflineAction \<Rightarrow> string \<Rightarrow> string" where
  "failedMessage action error =
     ''Failed to sync '' @ type_name (type action) @ '' '' @ entity action @ '': '' @ error"

definition removedMessage :: "string \<Rightarrow> string" where
  "removedMessage actionId = ''Action '' @ actionId @ '' removed after 3 failed attempts''"

text \<open>
  The loop of \<^verbatim>\<open>syncData\<close> carries the state, \<^verbatim>\<open>syncedActions\<close>, \<^verbatim>\<open>errors\<close> and, as
  an observation of the calls made to \<^verbatim>\<open>processAction\<close>, the list of the references
  submitted so far, each with whether the call succeeded.
\<close>

type_synonym pass = "state \<times> nat \<times> string list \<times> (nat \<times> bool) list"

definition loopBody :: "bool \<Rightarrow> nat \<Rightarrow> pass \<Rightarrow> pass" where
  "loopBody simulatedFailure r p =
     (case p of (s, syncedActions, errors, calls) \<Rightarrow>
        (case processAction simulatedFailure (heap s r) of
           Inr _ \<Rightarrow>
             (markActionSynced (id' (heap s r)) s, syncedActions + 1, errors,
              calls @ [(r, True)])
         | Inl error \<Rightarrow>
             (let errors1 = errors @ [failedMessage (heap s r) error];
                  s1 = s\<lparr>heap := (heap s)(r := (heap s r)\<lparr>retryCount := retryCount (heap s r) + 1\<rparr>)\<rparr>
              in if retryCount (heap s1 r) \<ge> 3 then
                   (removeAction (id' (heap s1 r)) s1, syncedActions,
                    errors1 @ [removedMessage (id' (heap s1 r))], calls @ [(r, False)])
                 else (s1, syncedActions, errors1, calls @ [(r, False)]))))"

text \<open>\<^verbatim>\<open>for (const action of unsyncedActions)\<close>; \<open>rnd k\<close> is the random outcome of call \<open>k\<close>.\<close>

fun drain :: "(nat \<Rightarrow> bool) \<Rightarrow> nat \<Rightarrow> nat list \<Rightarrow> pass \<Rightarrow> pass" where
  "drain rnd k [] p = p"
| "drain rnd k (r # rs) p = drain rnd (Suc k) rs (loopBody (rnd k) r p)"

record sync_env =
  simulatedFailures :: "nat \<Rightarrow> bool"
  sync_now :: nat

record sync_result =
  success :: bool
  syncedActions :: nat
  errors :: "string list"

text \<open>
  \<^verbatim>\<open>syncData\<close> returns its result and the new state; the list of submissions is
  returned beside the result. No operation of the pass throws in this model, so the
  outer \<^verbatim>\<open>catch\<close> is not reached; \<^verbatim>\<open>finally\<close> resets the flag.
\<close>

definition syncData :: "sync_env \<Rightarrow> state \<Rightarrow> (sync_result \<times> (nat \<times> bool) list) \<times> state" where
  "syncData env s =
     (if syncInProgress s then
        ((\<lparr>success = False, syncedActions = 0, errors = [''Sync already in progress'']\<rparr>, []), s)
      else if \<not> isOnline s then
        ((\<lparr>success = False, syncedActions = 0, errors = [''Device is offline'']\<rparr>, []), s)
      else
        (let s1 = s\<lparr>syncInProgress := True\<rparr>;
             unsyncedActions = filter (\<lambda>r. \<not> synced (heap s1 r)) (actionQueue s1)
         in case drain (simulatedFailures env) 0 unsyncedActions (s1, 0, [], []) of
              (s2, n, errs, calls) \<Rightarrow>
                (let s3 = storeData ''lastSync'' (SNum (sync_now env)) s2;
                     s4 = s3\<lparr>actionQueue := filter (\<lambda>r. \<not> synced (heap s3 r)) (actionQueue s3)\<rparr>;
                     s5 = persistQueue s4
                 in ((\<lparr>success = (length errs = 0), syncedActions = n, errors = errs\<rparr>, calls),
                     s5\<lparr>syncInProgress := False\<rparr>))))"

definition syncResult :: "sync_env \<Rightarrow> state \<Rightarrow> sync_result" where
  "syncResult env s = fst (fst (syncData env s))"

definition submitted :: "sync_env \<Rightarrow> state \<Rightarrow> (nat \<times> bool) list" where
  "submitted env s = snd (fst (syncData env s))"

definition afterSync :: "sync_env \<Rightarrow> state \<Rightarrow> state" where
  "afterSync env s = snd (syncData env s)"

subsection \<open>Network status subscribers\<close>

text \<open>
  A subscriber's callback acts on the world outside the service: it returns the text
  of the error it throws, if any, and the world as it left it. \<^verbatim>\<open>notifyNetworkChange\<close>
  visits \<^verbatim>\<open>networkCallbacks\<close> in insertion order, here a list. It returns the indices
  of the callbacks it invoked, the errors it caught and logged, and the world.
\<close>

type_synonym 'w callback = "bool \<Rightarrow> 'w \<Rightarrow> string option \<times> 'w"

fun notifyLoop ::
  "bool \<Rightarrow> nat \<Rightarrow> 'w callback list \<Rightarrow> nat list \<times> string list \<times> 'w \<Rightarrow> nat list \<times> string list \<times> 'w" where
  "notifyLoop isOnl i [] acc = acc"
| "notifyLoop isOnl i (callback # rest) (invoked, logged, w) =
     (case callback isOnl w of
        (None, w') \<Rightarrow> notifyLoop isOnl (Suc i) rest (invoked @ [i], logged, w')
      | (Some error, w') \<Rightarrow> notifyLoop isOnl (Suc i) rest (invoked @ [i], logged @ [error], w'))"

definition notifyNetworkChange ::
  "bool \<Rightarrow> 'w callback list \<Rightarrow> 'w \<Rightarrow> nat list \<times> string list \<times> 'w" where
  "notifyNetworkChange isOnl networkCallbacks w = notifyLoop isOnl 0 networkCallbacks ([], [], w)"

text \<open>
  What the callbacks return, one after the other, each in the world the previous one
  left: \<open>Some e\<close> where the callback throws \<open>e\<close>.
\<close>

fun outcomes :: "bool \<Rightarrow> 'w callback list \<Rightarrow> 'w \<Rightarrow> string option list" where
  "outcomes b [] w = []"
| "outcomes b (c # cs) w = fst (c b w) # outcomes b cs (snd (c b w))"

subsection \<open>Several calls in a row\<close>

fun enqueue_all :: "(queue_env \<times> action_input) list \<Rightarrow> state \<Rightarrow> state" where
  "enqueue_all [] s = s"
| "enqueue_all ((env, action) # rest) s = enqueue_all rest (snd (queueAction env action s))"

subsection \<open>Sequences of operations\<close>

text \<open>
  The operations on the queue that a client can interleave with passes, and the
  submissions to \<^verbatim>\<open>processAction\<close> that a sequence of them makes, in order.
\<close>

datatype operation =
    QueueAction queue_env action_input
  | MarkActionSynced string
  | RemoveAction string
  | ClearQueue
  | SyncData sync_env

fun perform :: "operation \<Rightarrow> state \<Rightarrow> (nat \<times> bool) list \<times> state" where
  "perform (QueueAction env action) s = ([], snd (queueAction env action s))"
| "perform (MarkActionSynced actionId) s = ([], markActionSynced actionId s)"
| "perform (RemoveAction actionId) s = ([], removeAction actionId s)"
| "perform ClearQueue s = ([], clearQueue s)"
| "perform (SyncData env) s = (submitted env s, afterSync env s)"

fun perform_all :: "operation list \<Rightarrow> state \<Rightarrow> (nat \<times> bool) list" where
  "perform_all [] s = []"
| "perform_all (x # xs) s = fst (perform x s) @ perform_all xs (snd (perform x s))"

subsection \<open>Notions used in the statements\<close>

text \<open>The identifier of a resolved record.\<close>

definition recordId :: "jsobj option \<Rightarrow> jsval" where
  "recordId v = (case v of None \<Rightarrow> JUndefined | Some m \<Rightarrow> getProp m ''id'')"

text \<open>The queued objects carry pairwise different ids, as \<^verbatim>\<open>generateId\<close> intends.\<close>

definition ids_distinct :: "state \<Rightarrow> bool" where
  "ids_distinct s = distinct (map (\<lambda>r. id' (heap s r)) (actionQueue s))"

text \<open>Every queued reference has been allocated.\<close>

definition allocated :: "state \<Rightarrow> bool" where
  "allocated s = list_all (\<lambda>r. r < nextRef s) (actionQueue s)"

text \<open>An allocated object that is synced, or no longer in the queue.\<close>

definition settled :: "nat \<Rightarrow> state \<Rightarrow> bool" where
  "settled r s = (r < nextRef s \<and> (synced (heap s r) \<or> r \<notin> set (actionQueue s)))"

text \<open>The components of the loop's state.\<close>

definition pstate :: "pass \<Rightarrow> state" where
  "pstate p = fst p"

definition pcount :: "pass \<Rightarrow> nat" where
  "pcount p = fst (snd p)"

definition perrors :: "pass \<Rightarrow> string list" where
  "perrors p = fst (snd (snd p))"

definition pcalls :: "pass \<Rightarrow> (nat \<times> bool) list" where
  "pcalls p = snd (snd (snd p))"

text \<open>\<^verbatim>\<open>action.retryCount++\<close> on the object \<open>r\<close>.\<close>

definition bumped :: "state \<Rightarrow> nat \<Rightarrow> state" where
  "bumped s r = s\<lparr>heap := (heap s)(r := (heap s r)\<lparr>retryCount := retryCount (heap s r) + 1\<rparr>)\<rparr>"

text \<open>Whether \<^verbatim>\<open>processAction\<close> returns without throwing.\<close>

definition succeeds :: "bool \<Rightarrow> OfflineAction \<Rightarrow> bool" where
  "succeeds b a = (case processAction b a of Inr u \<Rightarrow> True | Inl e \<Rightarrow> False)"

text \<open>
  The pass that \<^verbatim>\<open>syncData\<close> runs when it is not rejected: its list
  \<^verbatim>\<open>unsyncedActions\<close>, the state of the loop at its start, and at its end.
\<close>

definition pending :: "state \<Rightarrow> nat list" where
  "pending s = filter (\<lambda>r. \<not> synced (heap s r)) (actionQueue s)"

definition passStart :: "state \<Rightarrow> pass" where
  "passStart s = (s\<lparr>syncInProgress := True\<rparr>, 0, [], [])"

definition runPass :: "sync_env \<Rightarrow> state \<Rightarrow> pass" where
  "runPass env s = drain (simulatedFailures env) 0 (pending s) (passStart s)"

text \<open>The object that \<^verbatim>\<open>queueAction\<close> creates for an input.\<close>

definition queued :: "queue_env \<times> action_input \<Rightarrow> OfflineAction" where
  "queued x = (case x of (env, action) \<Rightarrow>
     \<lparr> id' = generateId (id_now env) (id_random env), type = in_type action,
       entity = in_entity action, entityId = in_entityId action, data = in_data action,
       timestamp = ts_now env, synced = False, retryCount = 0 \<rparr>)"

subsection \<open>Concrete inputs\<close>

definition action0 :: OfflineAction where
  "action0 = \<lparr> id' = ''a1'', type = CREATE, entity = ''plot'', entityId = ''tmp-1'',
               data = Map.empty, timestamp = 0, synced = False, retryCount = 0 \<rparr>"

definition state0 :: state where
  "state0 = \<lparr> heap = (\<lambda>_. action0), nextRef = 1, actionQueue = [0], storage = Map.empty,
              localStorage = None, quotaExceeded = (\<lambda>_ _. False), isOnlineStatus = True,
              syncInProgress = False, timers = [] \<rparr>"

definition env0 :: sync_env where
  "env0 = \<lparr> simulatedFailures = (\<lambda>_. False), sync_now = 1000 \<rparr>"

definition envFail :: sync_env where
  "envFail = \<lparr> simulatedFailures = (\<lambda>_. True), sync_now = 2000 \<rparr>"

definition input0 :: action_input where
  "input0 = \<lparr> in_type = UPDATE, in_entity = ''plot'', in_entityId = ''tmp-1'', in_data = Map.empty \<rparr>"

definition qenv0 :: queue_env where
  "qenv0 = \<lparr> id_now = 42, id_random = ''k3x'', ts_now = 43 \<rparr>"

definition localNew :: jsobj where
  "localNew = [''id'' \<mapsto> JStr ''tmp-1'', ''name'' \<mapsto> JStr ''North Field'',
               ''updated_at'' \<mapsto> JNum 2000]"

definition serverOld :: jsobj where
  "serverOld = [''id'' \<mapsto> JStr ''srv-9'', ''name'' \<mapsto> JStr ''North'',
                ''updated_at'' \<mapsto> JNum 1000]"

definition serverTie :: jsobj where
  "serverTie = [''id'' \<mapsto> JStr ''srv-9'', ''name'' \<mapsto> JStr ''North'',
                ''updated_at'' \<mapsto> JNum 2000]"

definition localNoTime :: jsobj where
  "localNoTime = [''id'' \<mapsto> JStr ''tmp-1'', ''name'' \<mapsto> JStr ''North Field'']"

text \<open>Three subscribers that record their visit in the world; the second one throws.\<close>

definition subscribers :: "nat list callback list" where
  "subscribers = [(\<lambda>b w. (None, w @ [1])), (\<lambda>b w. (Some ''boom'', w @ [2])), (\<lambda>b w. (None, w @ [3]))]"

text \<open>The states reached from \<open>state0\<close> when every call fails.\<close>

definition failedOnce :: state where
  "failedOnce = state0\<lparr>heap := (\<lambda>_. action0)(0 := action0\<lparr>retryCount := 1\<rparr>),
     storage := [''agroclash_offline_lastSync'' \<mapsto> SNum 2000,
                 ''agroclash_offline_actionQueue'' \<mapsto> SQueue [action0\<lparr>retryCount := 1\<rparr>]]\<rparr>"

definition failedTwice :: state where
  "failedTwice = state0\<lparr>heap := (\<lambda>_. action0)(0 := action0\<lparr>retryCount := 2\<rparr>),
     storage := [''agroclash_offline_lastSync'' \<mapsto> SNum 2000,
                 ''agroclash_offline_actionQueue'' \<mapsto> SQueue [action0\<lparr>retryCount := 2\<rparr>]]\<rparr>"

definition dropped :: state where
  "dropped = state0\<lparr>heap := (\<lambda>_. action0)(0 := action0\<lparr>retryCount := 3\<rparr>),
     actionQueue := [],
     storage := [''agroclash_offline_lastSync'' \<mapsto> SNum 2000,
                 ''agroclash_offline_actionQueue'' \<mapsto> SQueue []]\<rparr>"

text \<open>Two queued actions on the same entity; in \<open>stateMixed\<close> the first is already synced.\<close>

definition action1 :: OfflineAction where
  "action1 = action0\<lparr>id' := ''a2'', type := UPDATE\<rparr>"

definition statePair :: state where
  "statePair = state0\<lparr>heap := (\<lambda>_. action0)(1 := action1), nextRef := 2, actionQueue := [0, 1]\<rparr>"

definition stateMixed :: state where
  "stateMixed = statePair\<lparr>heap := (\<lambda>_. action0)(0 := action0\<lparr>synced := True\<rparr>, 1 := action1),
                           localStorage := Some Map.empty\<rparr>"

section \<open>Properties\<close>

subsection \<open>Conflict resolution\<close>

text \<open>
  Claim C2, as the code has it. An absent side yields the other side. When both records
  have a truthy \<^verbatim>\<open>updated_at\<close>, the local record is returned whole if its time is
  strictly later, and the server record otherwise (equal times, or a time that is not
  a number). When a record lacks a truthy \<^verbatim>\<open>updated_at\<close>, the result is not the server
  record but a merge: the local properties overridden by the server's, and an \<^verbatim>\<open>id\<close>
  that is the local id when that is truthy and the server's otherwise.
\<close>

theorem resolveConflicts_rules:
  "resolveConflicts getTime None sv = sv \<and>
   resolveConflicts getTime (Some l) None = Some l \<and>
   (truthy (getProp l ''updated_at'') \<and> truthy (getProp s ''updated_at'') \<longrightarrow>
      (\<forall>t1 t2. getTime (getProp l ''updated_at'') = Some t1 \<and>
               getTime (getProp s ''updated_at'') = Some t2 \<longrightarrow>
         resolveConflicts getTime (Some l) (Some s) = (if t1 > t2 then Some l else Some s)) \<and>
      (getTime (getProp l ''updated_at'') = None \<or> getTime (getProp s ''updated_at'') = None \<longrightarrow>
         resolveConflicts getTime (Some l) (Some s) = Some s)) \<and>
   (\<not> (truthy (getProp l ''updated_at'') \<and> truthy (getProp s ''updated_at'')) \<longrightarrow>
      (\<exists>m. resolveConflicts getTime (Some l) (Some s) = Some m \<and>
           getProp m ''id'' = (if truthy (getProp l ''id'') then getProp l ''id'' else getProp s ''id'') \<and>
           (\<forall>k. k \<noteq> ''id'' \<longrightarrow>
              getProp m k = (if k \<in> dom s then getProp s k else getProp l k))))"
  by (auto simp: resolveConflicts_def Let_def getProp_def js_or_def map_add_def split: option.splits)

theorem resolveConflicts_rules_witness:
  "resolveConflicts numTime None (Some serverOld) = Some serverOld \<and>
   resolveConflicts numTime (Some localNew) None = Some localNew \<and>
   resolveConflicts numTime (Some localNew) (Some serverOld) = Some localNew \<and>
   resolveConflicts numTime (Some serverOld) (Some localNew) = Some localNew \<and>
   resolveConflicts numTime (Some localNew) (Some serverTie) = Some serverTie \<and>
   (\<exists>m. resolveConflicts numTime (Some localNoTime) (Some serverOld) = Some m \<and>
        getProp m ''id'' = JStr ''tmp-1'' \<and> getProp m ''name'' = JStr ''North'' \<and>
        getProp m ''updated_at'' = JNum 1000)"
proof -
  have t: "truthy (getProp localNew ''updated_at'')" "truthy (getProp serverOld ''updated_at'')"
    "truthy (getProp serverTie ''updated_at'')"
    by (simp_all add: localNew_def serverOld_def serverTie_def getProp_def)
  have g: "numTime (getProp localNew ''updated_at'') = Some 2000"
          "numTime (getProp serverOld ''updated_at'') = Some 1000"
          "numTime (getProp serverTie ''updated_at'') = Some 2000"
    by (simp_all add: localNew_def serverOld_def serverTie_def getProp_def)
  have n: "\<not> (truthy (getProp localNoTime ''updated_at'') \<and> truthy (getProp serverOld ''updated_at''))"
    by (simp add: localNoTime_def getProp_def)
  have o: "resolveConflicts numTime None (Some serverOld) = Some serverOld \<and>
           resolveConflicts numTime (Some localNew) None = Some localNew"
    using resolveConflicts_rules [of numTime "Some serverOld" localNew serverOld] by simp
  have a: "resolveConflicts numTime (Some localNew) (Some serverOld) = Some localNew"
    using resolveConflicts_rules [of numTime "Some serverOld" localNew serverOld] t g by simp
  have b: "resolveConflicts numTime (Some serverOld) (Some localNew) = Some localNew"
    using resolveConflicts_rules [of numTime "Some serverOld" serverOld localNew] t g by simp
  have c: "resolveConflicts numTime (Some localNew) (Some serverTie) = Some serverTie"
    using resolveConflicts_rules [of numTime "Some serverOld" localNew serverTie] t g by simp
  have d: "\<exists>m. resolveConflicts numTime (Some localNoTime) (Some serverOld) = Some m \<and>
        getProp m ''id'' = JStr ''tmp-1'' \<and> getProp m ''name'' = JStr ''North'' \<and>
        getProp m ''updated_at'' = JNum 1000"
    using resolveConflicts_rules [of numTime "Some serverOld" localNoTime serverOld] n
    by (auto simp: localNoTime_def serverOld_def getProp_def)
  from o a b c d show ?thesis by blast
qed

text \<open>
  Against C2 as stated: the local record has no \<^verbatim>\<open>updated_at\<close>, and the result is not
  the server record (it carries the local id).
\<close>

theorem merge_counterexample:
  "resolveConflicts numTime (Some localNoTime) (Some serverOld) \<noteq> Some serverOld"
proof
  assume "resolveConflicts numTime (Some localNoTime) (Some serverOld) = Some serverOld"
  then have "(localNoTime ++ serverOld)(''id'' \<mapsto> JStr ''tmp-1'') = serverOld"
    by (simp add: resolveConflicts_def getProp_def localNoTime_def js_or_def)
  then have "((localNoTime ++ serverOld)(''id'' \<mapsto> JStr ''tmp-1'')) ''id'' = serverOld ''id''"
    by simp
  then show False by (simp add: serverOld_def)
qed

text \<open>
  Claim C3, as the code has it. The identifier of the result is the server's when the
  server record is returned whole: the local side is absent, or both records have a
  truthy \<^verbatim>\<open>updated_at\<close> and the local time is not strictly later. When the local
  record wins by its time, the result has the local identifier. In the merge, the
  identifier is the local one when that is truthy and the server's otherwise.
\<close>

theorem resolveConflicts_id:
  "recordId (resolveConflicts getTime None (Some s)) = recordId (Some s) \<and>
   recordId (resolveConflicts getTime (Some l) (Some s)) =
     (if truthy (getProp l ''updated_at'') \<and> truthy (getProp s ''updated_at'') then
        (if js_gt (getTime (getProp l ''updated_at'')) (getTime (getProp s ''updated_at''))
         then recordId (Some l) else recordId (Some s))
      else if truthy (recordId (Some l)) then recordId (Some l) else recordId (Some s))"
  by (simp add: resolveConflicts_def recordId_def Let_def getProp_def js_or_def)

theorem resolveConflicts_id_witness:
  "recordId (resolveConflicts numTime None (Some serverOld)) = JStr ''srv-9'' \<and>
   recordId (resolveConflicts numTime (Some localNew) (Some serverTie)) = JStr ''srv-9'' \<and>
   recordId (resolveConflicts numTime (Some localNew) (Some serverOld)) = JStr ''tmp-1'' \<and>
   recordId (resolveConflicts numTime (Some localNoTime) (Some serverOld)) = JStr ''tmp-1''"
  using resolveConflicts_id [of numTime serverOld localNew]
    resolveConflicts_id [of numTime serverTie localNew]
    resolveConflicts_id [of numTime serverOld localNoTime]
  by (simp add: recordId_def getProp_def localNew_def serverOld_def serverTie_def localNoTime_def)

text \<open>
  Against C3 as stated: the server record exists, the local record is newer, and the
  result has the local identifier.
\<close>

theorem server_id_counterexample:
  "recordId (resolveConflicts numTime (Some localNew) (Some serverOld)) \<noteq> recordId (Some serverOld)"
  by (simp add: resolveConflicts_def recordId_def getProp_def localNew_def serverOld_def)

subsection \<open>Queue operations\<close>

lemma findIndex_ge: "findIndex p xs \<ge> - 1"
  by (induction xs) (auto simp: Let_def)

lemma findIndex_none: "(findIndex p xs = - 1) = (\<forall>x \<in> set xs. \<not> p x)"
proof (induction xs)
  case Nil
  then show ?case by simp
next
  case (Cons a xs)
  have "findIndex p xs \<ge> - 1" by (rule findIndex_ge)
  with Cons show ?case by (auto simp: Let_def)
qed

text \<open>
  Claim C7, as the code has it. \<^verbatim>\<open>queueAction\<close> appends one new object at the end of
  the queue, with the generated id, the caller's fields, \<^verbatim>\<open>timestamp\<close> the current
  time, \<^verbatim>\<open>synced = false\<close> and \<^verbatim>\<open>retryCount = 0\<close>; on return the store holds the
  contents of the new queue under the queue's key (and so does \<^verbatim>\<open>localStorage\<close>, where
  it exists and accepts the write); when online a pass is scheduled after 100 ms. The
  promise resolves to \<^verbatim>\<open>undefined\<close>: the generated id is not returned.
\<close>

theorem queueAction_appends_and_persists:
  "fst (queueAction env action s) = JUndefined \<and>
   actionQueue (snd (queueAction env action s)) = actionQueue s @ [nextRef s] \<and>
   heap (snd (queueAction env action s)) (nextRef s) =
     \<lparr> id' = generateId (id_now env) (id_random env), type = in_type action,
       entity = in_entity action, entityId = in_entityId action, data = in_data action,
       timestamp = ts_now env, synced = False, retryCount = 0 \<rparr> \<and>
   storage (snd (queueAction env action s)) (STORAGE_PREFIX @ ''actionQueue'') =
     Some (SQueue (queueContents (snd (queueAction env action s)))) \<and>
   localStorage (snd (queueAction env action s)) =
     (case localStorage s of
        None \<Rightarrow> None
      | Some ls \<Rightarrow>
          if quotaExceeded s (STORAGE_PREFIX @ ''actionQueue'')
               (SQueue (queueContents (snd (queueAction env action s))))
          then Some ls
          else Some (ls(STORAGE_PREFIX @ ''actionQueue'' \<mapsto>
                      SQueue (queueContents (snd (queueAction env action s)))))) \<and>
   timers (snd (queueAction env action s)) = (if isOnline s then timers s @ [100] else timers s)"
  by (simp add: queueAction_def Let_def persistQueue_def storeData_def queueContents_def isOnline_def
           split: option.splits)

theorem queueAction_appends_and_persists_witness:
  "actionQueue (snd (queueAction qenv0 input0 state0)) = [0, 1] \<and>
   heap (snd (queueAction qenv0 input0 state0)) 1 =
     \<lparr> id' = ''offline_42_k3x'', type = UPDATE, entity = ''plot'', entityId = ''tmp-1'',
       data = Map.empty, timestamp = 43, synced = False, retryCount = 0 \<rparr> \<and>
   storage (snd (queueAction qenv0 input0 state0)) ''agroclash_offline_actionQueue'' =
     Some (SQueue [action0, heap (snd (queueAction qenv0 input0 state0)) 1]) \<and>
   timers (snd (queueAction qenv0 input0 state0)) = [100] \<and>
   fst (queueAction qenv0 input0 state0) = JUndefined"
proof -
  have n: "show_nat 42 = ''42''"
    by code_simp
  have g: "generateId (id_now qenv0) (id_random qenv0) = ''offline_42_k3x''"
    by (simp add: generateId_def qenv0_def n)
  have f: "nextRef state0 = 1" "actionQueue state0 = [0]" "heap state0 0 = action0"
    "timers state0 = []" "isOnline state0"
    by (simp_all add: state0_def isOnline_def)
  note t = queueAction_appends_and_persists [of qenv0 input0 state0]
  have 1: "actionQueue (snd (queueAction qenv0 input0 state0)) = [0, 1]"
    using t f by simp
  have 2: "heap (snd (queueAction qenv0 input0 state0)) 1 =
     \<lparr> id' = ''offline_42_k3x'', type = UPDATE, entity = ''plot'', entityId = ''tmp-1'',
       data = Map.empty, timestamp = 43, synced = False, retryCount = 0 \<rparr>"
    using t f g by (simp add: qenv0_def input0_def)
  have 0: "heap (snd (queueAction qenv0 input0 state0)) 0 = action0"
    by (simp add: queueAction_def Let_def persistQueue_def storeData_def state0_def)
  have 3: "storage (snd (queueAction qenv0 input0 state0)) ''agroclash_offline_actionQueue'' =
     Some (SQueue [action0, heap (snd (queueAction qenv0 input0 state0)) 1])"
    using t 0 1 by (simp add: queueContents_def STORAGE_PREFIX_def)
  have 4: "timers (snd (queueAction qenv0 input0 state0)) = [100]"
    using t f by simp
  have 5: "fst (queueAction qenv0 input0 state0) = JUndefined"
    using t by simp
  from 1 2 3 4 5 show ?thesis by blast
qed

text \<open>
  Against C7 as stated: what \<^verbatim>\<open>queueAction\<close> returns is not the id of the action it
  has just appended.
\<close>

theorem queueAction_returns_counterexample:
  "fst (queueAction qenv0 input0 state0) \<noteq>
     JStr (id' (heap (snd (queueAction qenv0 input0 state0))
                 (last (actionQueue (snd (queueAction qenv0 input0 state0))))))"
  by (simp add: queueAction_def Let_def)

text \<open>
  Claim C9. When no queued action has the id \<open>actionId\<close>, \<^verbatim>\<open>markActionSynced\<close> and
  \<^verbatim>\<open>removeAction\<close> return normally and leave the whole state as it was: the queue, the
  objects, the store and \<^verbatim>\<open>localStorage\<close> (nothing is written).
\<close>

theorem absent_id_noop:
  "\<forall>r \<in> set (actionQueue s). id' (heap s r) \<noteq> actionId \<Longrightarrow>
     markActionSynced actionId s = s \<and> removeAction actionId s = s"
proof -
  assume "\<forall>r \<in> set (actionQueue s). id' (heap s r) \<noteq> actionId"
  then have "findIndex (\<lambda>r. id' (heap s r) = actionId) (actionQueue s) = - 1"
    by (simp add: findIndex_none)
  then show ?thesis
    by (simp add: markActionSynced_def removeAction_def)
qed

theorem absent_id_noop_witness:
  "markActionSynced ''zz'' state0 = state0 \<and> removeAction ''zz'' state0 = state0 \<and>
   actionQueue (removeAction ''zz'' state0) = [0] \<and>
   storage (markActionSynced ''zz'' state0) = Map.empty"
proof -
  have h: "\<forall>r \<in> set (actionQueue state0). id' (heap state0 r) \<noteq> ''zz''"
    by (simp add: state0_def action0_def)
  from absent_id_noop [OF h] show ?thesis
    by (simp add: state0_def)
qed

subsection \<open>Rejected synchronisation requests\<close>

text \<open>
  Claim C4. When \<^verbatim>\<open>syncData\<close> is called while a pass is in progress, it returns at once
  the failure \<^verbatim>\<open>Sync already in progress\<close> with \<^verbatim>\<open>success = false\<close> and
  \<^verbatim>\<open>syncedActions = 0\<close>; no action is submitted, and the state (queue, objects, store)
  is unchanged.
\<close>

theorem sync_rejected_while_in_progress:
  "syncInProgress s \<Longrightarrow>
     syncData env s =
       ((\<lparr>success = False, syncedActions = 0, errors = [''Sync already in progress'']\<rparr>, []), s)"
  by (simp add: syncData_def)

theorem sync_rejected_while_in_progress_witness:
  "syncInProgress (state0\<lparr>syncInProgress := True\<rparr>) \<and>
   syncData env0 (state0\<lparr>syncInProgress := True\<rparr>) =
       ((\<lparr>success = False, syncedActions = 0, errors = [''Sync already in progress'']\<rparr>, []),
        state0\<lparr>syncInProgress := True\<rparr>)"
  using sync_rejected_while_in_progress [of "state0\<lparr>syncInProgress := True\<rparr>" env0]
  by simp

text \<open>
  Claim C8, as the code has it. When the device is offline, \<^verbatim>\<open>syncData\<close> fails with
  \<^verbatim>\<open>success = false\<close> and \<^verbatim>\<open>syncedActions = 0\<close>, submits nothing and leaves the state
  unchanged. Its one error is \<^verbatim>\<open>Device is offline\<close> when no pass is in progress; when
  one is, the check of the flag comes first and the error is \<^verbatim>\<open>Sync already in progress\<close>.
\<close>

theorem offline_sync_fails:
  "\<not> isOnline s \<Longrightarrow>
     afterSync env s = s \<and> submitted env s = [] \<and>
     syncResult env s =
       \<lparr>success = False, syncedActions = 0,
        errors = [if syncInProgress s then ''Sync already in progress'' else ''Device is offline'']\<rparr>"
  by (simp add: syncResult_def syncData_def afterSync_def submitted_def)

theorem offline_sync_fails_witness:
  "\<not> isOnline (state0\<lparr>isOnlineStatus := False\<rparr>) \<and>
   afterSync env0 (state0\<lparr>isOnlineStatus := False\<rparr>) = state0\<lparr>isOnlineStatus := False\<rparr> \<and>
   actionQueue (afterSync env0 (state0\<lparr>isOnlineStatus := False\<rparr>)) = [0] \<and>
   syncResult env0 (state0\<lparr>isOnlineStatus := False\<rparr>) =
       \<lparr>success = False, syncedActions = 0, errors = [''Device is offline'']\<rparr>"
proof -
  have h: "\<not> isOnline (state0\<lparr>isOnlineStatus := False\<rparr>)"
    by (simp add: isOnline_def)
  from offline_sync_fails [OF h, of env0] h show ?thesis
    by (simp add: state0_def)
qed

text \<open>
  Against C8 as stated: the device is offline and a pass is in progress; the error
  returned is not \<^verbatim>\<open>Device is offline\<close>.
\<close>

theorem offline_sync_counterexample:
  "\<not> isOnline (state0\<lparr>isOnlineStatus := False, syncInProgress := True\<rparr>) \<and>
   errors (syncResult env0 (state0\<lparr>isOnlineStatus := False, syncInProgress := True\<rparr>))
     \<noteq> [''Device is offline'']"
  by (simp add: syncResult_def syncData_def isOnline_def)

subsection \<open>Network status subscribers\<close>

lemma upt_from: "[i ..< i + Suc n] = i # [Suc i ..< Suc i + n]"
  using upt_conv_Cons [of i "i + Suc n"] by (simp del: upt_Suc)

lemma notifyLoop_all:
  "notifyLoop b i cbs (iv, lg, w) =
     (iv @ [i ..< i + length cbs], lg @ List.map_filter (\<lambda>x. x) (outcomes b cbs w),
      fold (\<lambda>c w. snd (c b w)) cbs w)"
proof (induction cbs arbitrary: i iv lg w)
  case Nil
  then show ?case by (simp add: List.map_filter_simps)
next
  case (Cons c cbs)
  obtain e w' where cw: "c b w = (e, w')" by (cases "c b w")
  have u: "[i ..< i + length (c # cbs)] = i # [Suc i ..< Suc i + length cbs]"
    using upt_from [of i "length cbs"] by simp
  show ?case
    unfolding u
    by (cases e) (simp_all add: cw Cons.IH List.map_filter_simps del: upt_Suc)
qed

text \<open>
  Claim C10. \<^verbatim>\<open>notifyNetworkChange\<close> invokes every registered callback, once and in
  order, whatever the earlier callbacks did: the world at the end is the one obtained by
  running all of them, the errors thrown are caught (they are the ones logged), and the
  call returns normally. The callbacks of the model act on the world outside the
  service; they do not subscribe or unsubscribe during the notification.
\<close>

theorem notify_reaches_every_subscriber:
  "notifyNetworkChange b cbs w =
     ([0 ..< length cbs], List.map_filter (\<lambda>x. x) (outcomes b cbs w),
      fold (\<lambda>c w. snd (c b w)) cbs w)"
  by (simp add: notifyNetworkChange_def notifyLoop_all)

theorem notify_reaches_every_subscriber_witness:
  "notifyNetworkChange True subscribers [] = ([0, 1, 2], [''boom''], [1, 2, 3])"
  using notify_reaches_every_subscriber [of True subscribers "[]"]
  by (simp add: subscribers_def List.map_filter_simps upt_rec)

subsection \<open>The store and the queue operations on a queued action\<close>

lemma pass_proj [simp]:
  "pstate (s, n, es, cs) = s" "pcount (s, n, es, cs) = n"
  "perrors (s, n, es, cs) = es" "pcalls (s, n, es, cs) = cs"
  by (simp_all add: pstate_def pcount_def perrors_def pcalls_def)

lemma storeData_fields [simp]:
  "heap (storeData k v s) = heap s"
  "actionQueue (storeData k v s) = actionQueue s"
  "nextRef (storeData k v s) = nextRef s"
  "isOnlineStatus (storeData k v s) = isOnlineStatus s"
  "syncInProgress (storeData k v s) = syncInProgress s"
  "timers (storeData k v s) = timers s"
  "quotaExceeded (storeData k v s) = quotaExceeded s"
  "storage (storeData k v s) = (storage s)(STORAGE_PREFIX @ k \<mapsto> v)"
  by (simp_all add: storeData_def Let_def split: option.splits)

lemma storeData_localStorage:
  "localStorage (storeData k v s) =
     (case localStorage s of
        None \<Rightarrow> None
      | Some ls \<Rightarrow>
          if quotaExceeded s (STORAGE_PREFIX @ k) v then Some ls
          else Some (ls(STORAGE_PREFIX @ k \<mapsto> v)))"
  by (simp add: storeData_def Let_def split: option.splits)

lemma persistQueue_fields [simp]:
  "heap (persistQueue s) = heap s"
  "actionQueue (persistQueue s) = actionQueue s"
  "nextRef (persistQueue s) = nextRef s"
  "isOnlineStatus (persistQueue s) = isOnlineStatus s"
  "syncInProgress (persistQueue s) = syncInProgress s"
  "timers (persistQueue s) = timers s"
  "quotaExceeded (persistQueue s) = quotaExceeded s"
  "storage (persistQueue s) = (storage s)(STORAGE_PREFIX @ ''actionQueue'' \<mapsto> SQueue (queueContents s))"
  by (simp_all add: persistQueue_def)

lemma persistQueue_localStorage:
  "localStorage (persistQueue s) = Some ls \<Longrightarrow>
   \<not> quotaExceeded s (STORAGE_PREFIX @ ''actionQueue'') (SQueue (queueContents s)) \<Longrightarrow>
     ls (STORAGE_PREFIX @ ''actionQueue'') = Some (SQueue (queueContents s))"
  by (auto simp: persistQueue_def storeData_localStorage split: option.splits if_splits)

lemma queueContents_persistQueue [simp]: "queueContents (persistQueue s) = queueContents s"
  by (simp add: queueContents_def)

lemma findIndex_found:
  "\<exists>x \<in> set xs. p x \<Longrightarrow>
     0 \<le> findIndex p xs \<and> nat (findIndex p xs) < length xs \<and> p (xs ! nat (findIndex p xs))"
proof (induction xs)
  case Nil
  then show ?case by simp
next
  case (Cons a xs)
  show ?case
  proof (cases "p a")
    case True
    then show ?thesis by simp
  next
    case False
    with Cons.prems have ex: "\<exists>x \<in> set xs. p x" by auto
    from Cons.IH [OF ex] show ?thesis
      using False by (auto simp: Let_def nat_add_distrib)
  qed
qed

lemma findIndex_distinct:
  assumes "r \<in> set q" and "distinct (map f q)"
  shows "0 \<le> findIndex (\<lambda>x. f x = f r) q \<and> nat (findIndex (\<lambda>x. f x = f r) q) < length q \<and>
         q ! nat (findIndex (\<lambda>x. f x = f r) q) = r"
proof -
  let ?i = "nat (findIndex (\<lambda>x. f x = f r) q)"
  from assms(1) have "\<exists>x \<in> set q. f x = f r" by auto
  from findIndex_found [OF this]
  have a: "0 \<le> findIndex (\<lambda>x. f x = f r) q" "?i < length q" "f (q ! ?i) = f r"
    by auto
  from assms(2) have "inj_on f (set q)" by (simp add: distinct_map)
  moreover from a(2) have "q ! ?i \<in> set q" by simp
  ultimately have "q ! ?i = r" using a(3) assms(1) by (auto dest: inj_onD)
  with a show ?thesis by simp
qed

lemma splice1_nth: "distinct q \<Longrightarrow> i < length q \<Longrightarrow> splice1 i q = removeAll (q ! i) q"
proof (induction q arbitrary: i)
  case Nil
  then show ?case by simp
next
  case (Cons a q)
  show ?case
  proof (cases i)
    case 0
    with Cons.prems show ?thesis by (simp add: splice1_def)
  next
    case (Suc j)
    with Cons.prems have "splice1 j q = removeAll (q ! j) q" by (simp add: Cons.IH)
    with Suc Cons.prems show ?thesis by (auto simp: splice1_def)
  qed
qed

lemma set_splice1: "set (splice1 i xs) \<subseteq> set xs"
  unfolding splice1_def using set_take_subset [of i xs] set_drop_subset [of "Suc i" xs] by auto

lemma bumped_fields [simp]:
  "actionQueue (bumped s r) = actionQueue s"
  "nextRef (bumped s r) = nextRef s"
  "isOnlineStatus (bumped s r) = isOnlineStatus s"
  "syncInProgress (bumped s r) = syncInProgress s"
  "id' (heap (bumped s r) x) = id' (heap s x)"
  "synced (heap (bumped s r) x) = synced (heap s x)"
  "x \<noteq> r \<Longrightarrow> heap (bumped s r) x = heap s x"
  "retryCount (heap (bumped s r) r) = retryCount (heap s r) + 1"
  "quotaExceeded (bumped s r) = quotaExceeded s"
  by (simp_all add: bumped_def)

lemma ids_distinct_refs: "ids_distinct s \<Longrightarrow> distinct (actionQueue s)"
  by (simp add: ids_distinct_def distinct_map)

lemma ids_distinct_cong:
  "(\<And>x. id' (heap s1 x) = id' (heap s x)) \<Longrightarrow> actionQueue s1 = actionQueue s \<Longrightarrow>
     ids_distinct s1 = ids_distinct s"
  by (simp add: ids_distinct_def)

lemma ids_distinct_ne:
  "ids_distinct s \<Longrightarrow> x \<in> set (actionQueue s) \<Longrightarrow> y \<in> set (actionQueue s) \<Longrightarrow> x \<noteq> y \<Longrightarrow>
     id' (heap s x) \<noteq> id' (heap s y)"
  by (auto simp: ids_distinct_def distinct_map dest: inj_onD)

lemma ids_distinct_persist [simp]: "ids_distinct (persistQueue s) = ids_distinct s"
  by (simp add: ids_distinct_def)

lemma ids_distinct_removeAll:
  "ids_distinct s \<Longrightarrow> ids_distinct (s\<lparr>actionQueue := removeAll r (actionQueue s)\<rparr>)"
  by (simp add: ids_distinct_def removeAll_filter_not_eq distinct_map_filter)

lemma ids_distinct_bumped [simp]: "ids_distinct (bumped s r) = ids_distinct s"
  by (rule ids_distinct_cong) simp_all

lemma ids_distinct_mark:
  "ids_distinct (s\<lparr>heap := (heap s)(r := (heap s r)\<lparr>synced := True\<rparr>)\<rparr>) = ids_distinct s"
  by (rule ids_distinct_cong) simp_all

lemma ids_distinct_flag [simp]: "ids_distinct (s\<lparr>syncInProgress := b\<rparr>) = ids_distinct s"
  by (simp add: ids_distinct_def)

lemma markActionSynced_fields [simp]:
  "actionQueue (markActionSynced i s) = actionQueue s"
  "nextRef (markActionSynced i s) = nextRef s"
  "isOnlineStatus (markActionSynced i s) = isOnlineStatus s"
  "syncInProgress (markActionSynced i s) = syncInProgress s"
  "id' (heap (markActionSynced i s) x) = id' (heap s x)"
  "retryCount (heap (markActionSynced i s) x) = retryCount (heap s x)"
  "quotaExceeded (markActionSynced i s) = quotaExceeded s"
  by (simp_all add: markActionSynced_def Let_def)

lemma markActionSynced_synced: "synced (heap s x) \<Longrightarrow> synced (heap (markActionSynced i s) x)"
  by (simp add: markActionSynced_def Let_def)

lemma markActionSynced_own:
  assumes "ids_distinct s" and "r \<in> set (actionQueue s)"
  shows "markActionSynced (id' (heap s r)) s =
           persistQueue (s\<lparr>heap := (heap s)(r := (heap s r)\<lparr>synced := True\<rparr>)\<rparr>)"
proof -
  from assms have "distinct (map (\<lambda>x. id' (heap s x)) (actionQueue s))"
    by (simp add: ids_distinct_def)
  from findIndex_distinct [OF assms(2) this]
  show ?thesis by (simp add: markActionSynced_def Let_def)
qed

lemma removeAction_fields [simp]:
  "heap (removeAction i s) = heap s"
  "nextRef (removeAction i s) = nextRef s"
  "isOnlineStatus (removeAction i s) = isOnlineStatus s"
  "syncInProgress (removeAction i s) = syncInProgress s"
  "quotaExceeded (removeAction i s) = quotaExceeded s"
  by (simp_all add: removeAction_def Let_def)

lemma removeAction_queue: "set (actionQueue (removeAction i s)) \<subseteq> set (actionQueue s)"
proof (cases "findIndex (\<lambda>r. id' (heap s r) = i) (actionQueue s) > - 1")
  case True
  then show ?thesis
    using set_splice1 [of "nat (findIndex (\<lambda>r. id' (heap s r) = i) (actionQueue s))" "actionQueue s"]
    by (simp add: removeAction_def Let_def)
next
  case False
  then show ?thesis by (simp add: removeAction_def Let_def)
qed

lemma removeAction_own:
  assumes "ids_distinct s" and "r \<in> set (actionQueue s)"
  shows "removeAction (id' (heap s r)) s =
           persistQueue (s\<lparr>actionQueue := removeAll r (actionQueue s)\<rparr>)"
proof -
  from assms have d: "distinct (map (\<lambda>x. id' (heap s x)) (actionQueue s))"
    by (simp add: ids_distinct_def)
  from findIndex_distinct [OF assms(2) d]
  have a: "0 \<le> findIndex (\<lambda>x. id' (heap s x) = id' (heap s r)) (actionQueue s)"
    "nat (findIndex (\<lambda>x. id' (heap s x) = id' (heap s r)) (actionQueue s)) < length (actionQueue s)"
    "actionQueue s ! nat (findIndex (\<lambda>x. id' (heap s x) = id' (heap s r)) (actionQueue s)) = r"
    by auto
  from splice1_nth [OF ids_distinct_refs [OF assms(1)] a(2)] a
  show ?thesis by (simp add: removeAction_def Let_def)
qed

subsection \<open>One iteration of the loop\<close>

lemma loopBody_cases:
  "loopBody b r (s, n, es, cs) =
     (case processAction b (heap s r) of
        Inr u \<Rightarrow> (markActionSynced (id' (heap s r)) s, n + 1, es, cs @ [(r, True)])
      | Inl e \<Rightarrow>
          if 3 \<le> retryCount (heap s r) + 1 then
            (removeAction (id' (heap s r)) (bumped s r), n,
             es @ [failedMessage (heap s r) e, removedMessage (id' (heap s r))],
             cs @ [(r, False)])
          else (bumped s r, n, es @ [failedMessage (heap s r) e], cs @ [(r, False)]))"
  by (simp add: loopBody_def Let_def bumped_def split: sum.splits)

lemma loopBody_own:
  assumes "ids_distinct s" and "r \<in> set (actionQueue s)"
  shows "loopBody b r (s, n, es, cs) =
     (case processAction b (heap s r) of
        Inr u \<Rightarrow> (persistQueue (s\<lparr>heap := (heap s)(r := (heap s r)\<lparr>synced := True\<rparr>)\<rparr>),
                  n + 1, es, cs @ [(r, True)])
      | Inl e \<Rightarrow>
          if 3 \<le> retryCount (heap s r) + 1 then
            (persistQueue ((bumped s r)\<lparr>actionQueue := removeAll r (actionQueue s)\<rparr>), n,
             es @ [failedMessage (heap s r) e, removedMessage (id' (heap s r))],
             cs @ [(r, False)])
          else (bumped s r, n, es @ [failedMessage (heap s r) e], cs @ [(r, False)]))"
proof -
  have b1: "ids_distinct (bumped s r)"
    using assms(1) ids_distinct_cong [of "bumped s r" s] by (simp add: bumped_def)
  have b2: "r \<in> set (actionQueue (bumped s r))"
    using assms(2) by (simp add: bumped_def)
  have b3: "id' (heap (bumped s r) r) = id' (heap s r)"
           "retryCount (heap (bumped s r) r) = retryCount (heap s r) + 1"
           "actionQueue (bumped s r) = actionQueue s"
    by (simp_all add: bumped_def)
  have e: "s\<lparr>heap := (heap s)(r := (heap s r)\<lparr>retryCount := Suc (retryCount (heap s r))\<rparr>)\<rparr> = bumped s r"
    by (simp add: bumped_def)
  show ?thesis
    using markActionSynced_own [OF assms] removeAction_own [OF b1 b2] b3
    by (simp add: loopBody_def Let_def e split: sum.splits)
qed

lemma loopBody_calls:
  "pcalls (loopBody b r p) = pcalls p @ [(r, succeeds b (heap (pstate p) r))]"
  by (cases p) (simp add: loopBody_cases succeeds_def split: sum.splits)

lemma loopBody_synced:
  "synced (heap (pstate p) x) \<Longrightarrow> synced (heap (pstate (loopBody b r p)) x)"
  by (cases p) (simp add: loopBody_cases markActionSynced_synced split: sum.splits)

lemma loopBody_queue:
  "set (actionQueue (pstate (loopBody b r p))) \<subseteq> set (actionQueue (pstate p))"
proof (cases p)
  case (fields s n es cs)
  show ?thesis
    using removeAction_queue [of "id' (heap s r)" "bumped s r"]
    by (simp add: fields loopBody_cases split: sum.splits)
qed

lemma loopBody_fields [simp]:
  "id' (heap (pstate (loopBody b r p)) x) = id' (heap (pstate p) x)"
  "syncInProgress (pstate (loopBody b r p)) = syncInProgress (pstate p)"
  "isOnlineStatus (pstate (loopBody b r p)) = isOnlineStatus (pstate p)"
  "nextRef (pstate (loopBody b r p)) = nextRef (pstate p)"
  "quotaExceeded (pstate (loopBody b r p)) = quotaExceeded (pstate p)"
proof -
  obtain s n es cs where p: "p = (s, n, es, cs)" by (cases p) auto
  show "id' (heap (pstate (loopBody b r p)) x) = id' (heap (pstate p) x)"
    by (simp add: p loopBody_cases split: sum.splits)
  show "syncInProgress (pstate (loopBody b r p)) = syncInProgress (pstate p)"
    by (simp add: p loopBody_cases split: sum.splits)
  show "isOnlineStatus (pstate (loopBody b r p)) = isOnlineStatus (pstate p)"
    by (simp add: p loopBody_cases split: sum.splits)
  show "nextRef (pstate (loopBody b r p)) = nextRef (pstate p)"
    by (simp add: p loopBody_cases split: sum.splits)
  show "quotaExceeded (pstate (loopBody b r p)) = quotaExceeded (pstate p)"
    by (simp add: p loopBody_cases split: sum.splits)
qed

lemma failed_ne_removed: "failedMessage a e \<noteq> removedMessage i"
  by (simp add: failedMessage_def removedMessage_def)

lemma removedMessage_inj: "(removedMessage i = removedMessage j) = (i = j)"
  by (simp add: removedMessage_def)

text \<open>One iteration on an action of the queue, the ids being distinct.\<close>

lemma loopBody_own_state:
  assumes "ids_distinct (pstate p)" and "r \<in> set (actionQueue (pstate p))"
  shows "ids_distinct (pstate (loopBody b r p))"
    and "set (actionQueue (pstate p)) - {r} \<subseteq> set (actionQueue (pstate (loopBody b r p)))"
    and "x \<noteq> r \<Longrightarrow> heap (pstate (loopBody b r p)) x = heap (pstate p) x"
    and "i0 \<noteq> id' (heap (pstate p) r) \<Longrightarrow>
           count_list (perrors (loopBody b r p)) (removedMessage i0) =
           count_list (perrors p) (removedMessage i0)"
proof -
  obtain s n es cs where p: "p = (s, n, es, cs)" by (cases p) auto
  from assms have a: "ids_distinct s" "r \<in> set (actionQueue s)" by (simp_all add: p)
  note lb = loopBody_own [OF a, of b n es cs]
  show "ids_distinct (pstate (loopBody b r p))"
    using a(1) ids_distinct_removeAll [of "bumped s r" r]
    by (simp add: p lb ids_distinct_mark split: sum.splits)
  show "set (actionQueue (pstate p)) - {r} \<subseteq> set (actionQueue (pstate (loopBody b r p)))"
    by (auto simp: p lb split: sum.splits)
  show "x \<noteq> r \<Longrightarrow> heap (pstate (loopBody b r p)) x = heap (pstate p) x"
    by (simp add: p lb split: sum.splits)
  show "i0 \<noteq> id' (heap (pstate p) r) \<Longrightarrow>
           count_list (perrors (loopBody b r p)) (removedMessage i0) =
           count_list (perrors p) (removedMessage i0)"
    by (simp add: p lb failed_ne_removed removedMessage_inj split: sum.splits)
qed

lemma loopBody_own_target:
  assumes "ids_distinct (pstate p)" and "r \<in> set (actionQueue (pstate p))"
  shows "succeeds b (heap (pstate p) r) \<Longrightarrow> synced (heap (pstate (loopBody b r p)) r)"
    and "\<not> succeeds b (heap (pstate p) r) \<Longrightarrow>
           retryCount (heap (pstate (loopBody b r p)) r) = retryCount (heap (pstate p) r) + 1 \<and>
           synced (heap (pstate (loopBody b r p)) r) = synced (heap (pstate p) r) \<and>
           (r \<in> set (actionQueue (pstate (loopBody b r p)))) = (retryCount (heap (pstate p) r) + 1 < 3) \<and>
           count_list (perrors (loopBody b r p)) (removedMessage (id' (heap (pstate p) r))) =
             count_list (perrors p) (removedMessage (id' (heap (pstate p) r))) +
             (if 3 \<le> retryCount (heap (pstate p) r) + 1 then 1 else 0)"
proof -
  obtain s n es cs where p: "p = (s, n, es, cs)" by (cases p) auto
  from assms have a: "ids_distinct s" "r \<in> set (actionQueue s)" by (simp_all add: p)
  note lb = loopBody_own [OF a, of b n es cs]
  show "succeeds b (heap (pstate p) r) \<Longrightarrow> synced (heap (pstate (loopBody b r p)) r)"
    by (simp add: p lb succeeds_def split: sum.splits)
  show "\<not> succeeds b (heap (pstate p) r) \<Longrightarrow>
           retryCount (heap (pstate (loopBody b r p)) r) = retryCount (heap (pstate p) r) + 1 \<and>
           synced (heap (pstate (loopBody b r p)) r) = synced (heap (pstate p) r) \<and>
           (r \<in> set (actionQueue (pstate (loopBody b r p)))) = (retryCount (heap (pstate p) r) + 1 < 3) \<and>
           count_list (perrors (loopBody b r p)) (removedMessage (id' (heap (pstate p) r))) =
             count_list (perrors p) (removedMessage (id' (heap (pstate p) r))) +
             (if 3 \<le> retryCount (heap (pstate p) r) + 1 then 1 else 0)"
    using a(2) by (simp add: p lb succeeds_def failed_ne_removed split: sum.splits)
qed

subsection \<open>The whole loop\<close>

lemma drain_append:
  "drain rnd k (xs @ ys) p = drain rnd (k + length xs) ys (drain rnd k xs p)"
  by (induction xs arbitrary: k p) simp_all

lemma drain_calls:
  "map fst (pcalls (drain rnd k rs p)) = map fst (pcalls p) @ rs"
  by (induction rs arbitrary: k p) (simp_all add: loopBody_calls)

lemma drain_calls_grow: "set (pcalls p) \<subseteq> set (pcalls (drain rnd k rs p))"
proof (induction rs arbitrary: k p)
  case Nil
  then show ?case by simp
next
  case (Cons r rs)
  have "set (pcalls p) \<subseteq> set (pcalls (loopBody (rnd k) r p))"
    by (auto simp: loopBody_calls)
  with Cons.IH [where k = "Suc k" and p = "loopBody (rnd k) r p"] show ?case by auto
qed

lemma drain_calls_new:
  "\<exists>new. pcalls (drain rnd k rs p) = pcalls p @ new \<and> map fst new = rs"
proof (induction rs arbitrary: k p)
  case Nil
  then show ?case by simp
next
  case (Cons r rs)
  from Cons.IH [where k = "Suc k" and p = "loopBody (rnd k) r p"]
  obtain new where n: "pcalls (drain rnd (Suc k) rs (loopBody (rnd k) r p)) =
      pcalls (loopBody (rnd k) r p) @ new" "map fst new = rs"
    by (elim exE conjE)
  have "pcalls (drain rnd k (r # rs) p) = pcalls p @ ((r, succeeds (rnd k) (heap (pstate p) r)) # new)
        \<and> map fst ((r, succeeds (rnd k) (heap (pstate p) r)) # new) = r # rs"
    using n by (simp add: loopBody_calls)
  then show ?case by (rule exI)
qed

lemma drain_synced:
  "synced (heap (pstate p) x) \<Longrightarrow> synced (heap (pstate (drain rnd k rs p)) x)"
  by (induction rs arbitrary: k p) (simp_all add: loopBody_synced)

lemma drain_queue:
  "set (actionQueue (pstate (drain rnd k rs p))) \<subseteq> set (actionQueue (pstate p))"
proof (induction rs arbitrary: k p)
  case Nil
  then show ?case by simp
next
  case (Cons r rs)
  from Cons.IH [where k = "Suc k" and p = "loopBody (rnd k) r p"] loopBody_queue [of "rnd k" r p]
  show ?case by auto
qed

lemma drain_fields [simp]:
  "id' (heap (pstate (drain rnd k rs p)) x) = id' (heap (pstate p) x)"
  "syncInProgress (pstate (drain rnd k rs p)) = syncInProgress (pstate p)"
  "isOnlineStatus (pstate (drain rnd k rs p)) = isOnlineStatus (pstate p)"
  "nextRef (pstate (drain rnd k rs p)) = nextRef (pstate p)"
  "quotaExceeded (pstate (drain rnd k rs p)) = quotaExceeded (pstate p)"
proof -
  show "id' (heap (pstate (drain rnd k rs p)) x) = id' (heap (pstate p) x)"
    by (induction rs arbitrary: k p) simp_all
  show "syncInProgress (pstate (drain rnd k rs p)) = syncInProgress (pstate p)"
    by (induction rs arbitrary: k p) simp_all
  show "isOnlineStatus (pstate (drain rnd k rs p)) = isOnlineStatus (pstate p)"
    by (induction rs arbitrary: k p) simp_all
  show "nextRef (pstate (drain rnd k rs p)) = nextRef (pstate p)"
    by (induction rs arbitrary: k p) simp_all
  show "quotaExceeded (pstate (drain rnd k rs p)) = quotaExceeded (pstate p)"
    by (induction rs arbitrary: k p) simp_all
qed

text \<open>The loop leaves alone an object that it does not visit.\<close>

lemma drain_others:
  assumes "ids_distinct (pstate p)" and "set rs \<subseteq> set (actionQueue (pstate p))"
    and "distinct rs" and "r0 \<notin> set rs"
    and "\<forall>r \<in> set rs. id' (heap (pstate p) r) \<noteq> i0"
  shows "heap (pstate (drain rnd k rs p)) r0 = heap (pstate p) r0 \<and>
         (r0 \<in> set (actionQueue (pstate (drain rnd k rs p)))) = (r0 \<in> set (actionQueue (pstate p))) \<and>
         count_list (perrors (drain rnd k rs p)) (removedMessage i0) =
           count_list (perrors p) (removedMessage i0) \<and>
         ids_distinct (pstate (drain rnd k rs p))"
  using assms
proof (induction rs arbitrary: k p)
  case Nil
  then show ?case by simp
next
  case (Cons r rs)
  let ?q = "loopBody (rnd k) r p"
  from Cons.prems have rq: "r \<in> set (actionQueue (pstate p))" and ne: "r0 \<noteq> r"
    and ri: "i0 \<noteq> id' (heap (pstate p) r)" by auto
  note st = loopBody_own_state [OF Cons.prems(1) rq, where b = "rnd k"]
  have 1: "ids_distinct (pstate ?q)" by (rule st(1))
  have 2: "set rs \<subseteq> set (actionQueue (pstate ?q))"
    using st(2) Cons.prems(2,3) by auto
  have 3: "distinct rs" "r0 \<notin> set rs" using Cons.prems by auto
  have 4: "\<forall>x \<in> set rs. id' (heap (pstate ?q) x) \<noteq> i0"
    using Cons.prems(5) by simp
  note ih = Cons.IH [OF 1 2 3 4, where k = "Suc k"]
  have m: "(r0 \<in> set (actionQueue (pstate ?q))) = (r0 \<in> set (actionQueue (pstate p)))"
    using st(2) ne loopBody_queue [of "rnd k" r p] by auto
  show ?case
    using ih st(3) [OF ne] st(4) [OF ri] m by simp
qed

text \<open>The loop on an object that it visits and whose call fails.\<close>

lemma drain_target:
  assumes "ids_distinct (pstate p)" and "set rs \<subseteq> set (actionQueue (pstate p))"
    and "distinct rs" and "r0 \<in> set rs"
    and "(r0, True) \<notin> set (pcalls (drain rnd k rs p))"
  shows "retryCount (heap (pstate (drain rnd k rs p)) r0) = retryCount (heap (pstate p) r0) + 1 \<and>
         synced (heap (pstate (drain rnd k rs p)) r0) = synced (heap (pstate p) r0) \<and>
         (r0 \<in> set (actionQueue (pstate (drain rnd k rs p)))) = (retryCount (heap (pstate p) r0) + 1 < 3) \<and>
         count_list (perrors (drain rnd k rs p)) (removedMessage (id' (heap (pstate p) r0))) =
           count_list (perrors p) (removedMessage (id' (heap (pstate p) r0))) +
           (if 3 \<le> retryCount (heap (pstate p) r0) + 1 then 1 else 0) \<and>
         ids_distinct (pstate (drain rnd k rs p))"
  using assms
proof (induction rs arbitrary: k p)
  case Nil
  then show ?case by simp
next
  case (Cons r rs)
  let ?q = "loopBody (rnd k) r p"
  from Cons.prems have rq: "r \<in> set (actionQueue (pstate p))" by simp
  note st = loopBody_own_state [OF Cons.prems(1) rq, where b = "rnd k"]
  have q1: "ids_distinct (pstate ?q)" by (rule st(1))
  have q2: "set rs \<subseteq> set (actionQueue (pstate ?q))"
    using st(2) Cons.prems(2,3) by auto
  have q3: "distinct rs" using Cons.prems(3) by simp
  have nt: "(r0, True) \<notin> set (pcalls (drain rnd (Suc k) rs ?q))"
    using Cons.prems(5) by simp
  show ?case
  proof (cases "r = r0")
    case True
    have "(r0, True) \<notin> set (pcalls ?q)"
      using nt drain_calls_grow [of ?q rnd "Suc k" rs] by auto
    then have fl: "\<not> succeeds (rnd k) (heap (pstate p) r0)"
      by (auto simp: loopBody_calls True)
    note tg = loopBody_own_target(2) [OF Cons.prems(1) rq [unfolded True] fl]
    have o1: "r0 \<notin> set rs" using Cons.prems(3) True by simp
    have o2: "\<forall>x \<in> set rs. id' (heap (pstate ?q) x) \<noteq> id' (heap (pstate p) r0)"
    proof
      fix x assume x: "x \<in> set rs"
      with Cons.prems(2,3) True have "x \<in> set (actionQueue (pstate p))" "x \<noteq> r0" by auto
      from ids_distinct_ne [OF Cons.prems(1) this(1) rq [unfolded True] this(2)]
      show "id' (heap (pstate ?q) x) \<noteq> id' (heap (pstate p) r0)" by simp
    qed
    note ot = drain_others [OF q1 q2 q3 o1 o2, where k = "Suc k" and rnd = rnd]
    show ?thesis using tg ot by (simp add: True)
  next
    case False
    then have ne: "r0 \<noteq> r" by simp
    with Cons.prems(4) have in_rs: "r0 \<in> set rs" by simp
    with Cons.prems(2) have r0q: "r0 \<in> set (actionQueue (pstate p))" by auto
    have ri: "id' (heap (pstate p) r0) \<noteq> id' (heap (pstate p) r)"
      by (rule ids_distinct_ne [OF Cons.prems(1) r0q rq ne])
    note ih = Cons.IH [OF q1 q2 q3 in_rs nt]
    show ?thesis
      using ih st(3) [OF ne] st(4) [OF ri] by simp
  qed
qed

text \<open>An action whose call succeeded is marked before the loop goes on.\<close>

lemma drain_marks:
  assumes "ids_distinct (pstate p)" and "set rs \<subseteq> set (actionQueue (pstate p))"
    and "distinct rs" and "x \<in> set rs"
    and "(x, True) \<in> set (pcalls (drain rnd k rs p))" and "(x, True) \<notin> set (pcalls p)"
  shows "synced (heap (pstate (drain rnd k rs p)) x)"
  using assms
proof (induction rs arbitrary: k p)
  case Nil
  then show ?case by simp
next
  case (Cons r rs)
  let ?q = "loopBody (rnd k) r p"
  from Cons.prems have rq: "r \<in> set (actionQueue (pstate p))" by simp
  note st = loopBody_own_state [OF Cons.prems(1) rq, where b = "rnd k"]
  have q1: "ids_distinct (pstate ?q)" by (rule st(1))
  have q2: "set rs \<subseteq> set (actionQueue (pstate ?q))"
    using st(2) Cons.prems(2,3) by auto
  have q3: "distinct rs" using Cons.prems(3) by simp
  have q5: "(x, True) \<in> set (pcalls (drain rnd (Suc k) rs ?q))"
    using Cons.prems(5) by simp
  show ?case
  proof (cases "x = r")
    case True
    obtain new where n: "pcalls (drain rnd (Suc k) rs ?q) = pcalls ?q @ new" "map fst new = rs"
      using drain_calls_new [of rnd "Suc k" rs ?q] by (elim exE conjE)
    have "x \<notin> fst ` set new" using n(2) Cons.prems(3) True by (metis distinct.simps(2) set_map)
    then have "(x, True) \<notin> set new" by force
    with q5 n(1) have "(x, True) \<in> set (pcalls ?q)" by simp
    with Cons.prems(6) have "succeeds (rnd k) (heap (pstate p) r)"
      by (auto simp: loopBody_calls True)
    from loopBody_own_target(1) [OF Cons.prems(1) rq this]
    have "synced (heap (pstate ?q) r)" .
    then show ?thesis using drain_synced [of ?q r rnd "Suc k" rs] by (simp add: True)
  next
    case False
    with Cons.prems(4) have x: "x \<in> set rs" by simp
    have q6: "(x, True) \<notin> set (pcalls ?q)"
      using Cons.prems(6) False by (simp add: loopBody_calls)
    from Cons.IH [OF q1 q2 q3 x q5 q6] show ?thesis by simp
  qed
qed

subsection \<open>A pass\<close>

lemma syncData_runs:
  assumes "\<not> syncInProgress s" and "isOnline s"
  shows "submitted env s = pcalls (runPass env s)"
    and "errors (syncResult env s) = perrors (runPass env s)"
    and "syncedActions (syncResult env s) = pcount (runPass env s)"
    and "success (syncResult env s) = (perrors (runPass env s) = [])"
    and "heap (afterSync env s) = heap (pstate (runPass env s))"
    and "actionQueue (afterSync env s) =
           filter (\<lambda>r. \<not> synced (heap (pstate (runPass env s)) r))
             (actionQueue (pstate (runPass env s)))"
    and "storage (afterSync env s) (STORAGE_PREFIX @ ''actionQueue'') =
           Some (SQueue (queueContents (afterSync env s)))"
    and "syncInProgress (afterSync env s) = False"
    and "isOnlineStatus (afterSync env s) = isOnlineStatus s"
    and "nextRef (afterSync env s) = nextRef s"
    and "localStorage (afterSync env s) = Some ls \<Longrightarrow>
         \<not> quotaExceeded s (STORAGE_PREFIX @ ''actionQueue'') (SQueue (queueContents (afterSync env s))) \<Longrightarrow>
         ls (STORAGE_PREFIX @ ''actionQueue'') = Some (SQueue (queueContents (afterSync env s)))"
proof -
  obtain s2 n errs calls where d: "runPass env s = (s2, n, errs, calls)"
    by (cases "runPass env s") auto
  then have d': "drain (simulatedFailures env) 0 (filter (\<lambda>r. \<not> synced (heap s r)) (actionQueue s))
       (s\<lparr>syncInProgress := True\<rparr>, 0, [], []) = (s2, n, errs, calls)"
    by (simp add: runPass_def pending_def passStart_def)
  have f: "isOnlineStatus s2 = isOnlineStatus s" "nextRef s2 = nextRef s"
    "quotaExceeded s2 = quotaExceeded s"
    using drain_fields(3,4,5) [of "simulatedFailures env" 0 "filter (\<lambda>r. \<not> synced (heap s r)) (actionQueue s)"
         "(s\<lparr>syncInProgress := True\<rparr>, 0, [], [])"] d'
    by simp_all
  show "submitted env s = pcalls (runPass env s)"
    using assms by (simp add: submitted_def syncData_def d d' Let_def)
  show "errors (syncResult env s) = perrors (runPass env s)"
    using assms by (simp add: syncResult_def syncData_def d d' Let_def)
  show "syncedActions (syncResult env s) = pcount (runPass env s)"
    using assms by (simp add: syncResult_def syncData_def d d' Let_def)
  show "success (syncResult env s) = (perrors (runPass env s) = [])"
    using assms by (simp add: syncResult_def syncData_def d d' Let_def)
  show "heap (afterSync env s) = heap (pstate (runPass env s))"
    using assms by (simp add: afterSync_def syncData_def d d' Let_def)
  show "actionQueue (afterSync env s) =
           filter (\<lambda>r. \<not> synced (heap (pstate (runPass env s)) r))
             (actionQueue (pstate (runPass env s)))"
    using assms by (simp add: afterSync_def syncData_def d d' Let_def)
  show "storage (afterSync env s) (STORAGE_PREFIX @ ''actionQueue'') =
           Some (SQueue (queueContents (afterSync env s)))"
    using assms by (simp add: afterSync_def syncData_def d d' Let_def queueContents_def)
  show "syncInProgress (afterSync env s) = False"
    using assms by (simp add: afterSync_def syncData_def d d' Let_def)
  show "isOnlineStatus (afterSync env s) = isOnlineStatus s"
    using assms f by (simp add: afterSync_def syncData_def d d' Let_def)
  show "nextRef (afterSync env s) = nextRef s"
    using assms f by (simp add: afterSync_def syncData_def d d' Let_def)
  show "ls (STORAGE_PREFIX @ ''actionQueue'') = Some (SQueue (queueContents (afterSync env s)))"
    if l: "localStorage (afterSync env s) = Some ls"
      and nq: "\<not> quotaExceeded s (STORAGE_PREFIX @ ''actionQueue'')
                 (SQueue (queueContents (afterSync env s)))"
  proof -
    let ?s3 = "storeData ''lastSync'' (SNum (sync_now env)) s2"
    let ?s4 = "?s3\<lparr>actionQueue := filter (\<lambda>r. \<not> synced (heap ?s3 r)) (actionQueue ?s3)\<rparr>"
    have e: "afterSync env s = (persistQueue ?s4)\<lparr>syncInProgress := False\<rparr>"
      using assms by (simp add: afterSync_def syncData_def d' Let_def)
    have qc: "queueContents (afterSync env s) = queueContents ?s4"
      by (simp add: e queueContents_def)
    have qe: "quotaExceeded ?s4 = quotaExceeded s" using f(3) by simp
    have "localStorage (persistQueue ?s4) = Some ls"
      using l unfolding e by simp
    moreover have "\<not> quotaExceeded ?s4 (STORAGE_PREFIX @ ''actionQueue'') (SQueue (queueContents ?s4))"
      using nq unfolding qc qe .
    ultimately show ?thesis
      unfolding qc by (rule persistQueue_localStorage)
  qed
qed

lemma submitted_refs:
  "\<not> syncInProgress s \<Longrightarrow> isOnline s \<Longrightarrow>
     map fst (submitted env s) = filter (\<lambda>r. \<not> synced (heap s r)) (actionQueue s)"
  by (simp add: syncData_runs(1) runPass_def pending_def passStart_def drain_calls)

lemma submitted_rejected:
  "syncInProgress s \<or> \<not> isOnline s \<Longrightarrow> submitted env s = [] \<and> afterSync env s = s"
  by (auto simp: submitted_def afterSync_def syncData_def)

lemma submitted_contents:
  "\<not> syncInProgress s \<Longrightarrow> isOnline s \<Longrightarrow>
     map (heap s) (map fst (submitted env s)) = filter (\<lambda>a. \<not> synced a) (queueContents s)"
  by (simp add: submitted_refs queueContents_def filter_map comp_def)

lemma count_list_distinct: "distinct xs \<Longrightarrow> x \<in> set xs \<Longrightarrow> count_list xs x = 1"
  by (induction xs) auto

text \<open>A pass on a pending action whose call does not succeed.\<close>

lemma pass_failing:
  assumes "ids_distinct s" and "\<not> syncInProgress s" and "isOnline s"
    and "r \<in> set (actionQueue s)" and "\<not> synced (heap s r)"
    and "(r, True) \<notin> set (submitted env s)"
  shows "(r, False) \<in> set (submitted env s)"
    and "count_list (map fst (submitted env s)) r = 1"
    and "retryCount (heap (afterSync env s) r) = retryCount (heap s r) + 1"
    and "id' (heap (afterSync env s) r) = id' (heap s r)"
    and "\<not> synced (heap (afterSync env s) r)"
    and "(r \<in> set (actionQueue (afterSync env s))) = (retryCount (heap s r) + 1 < 3)"
    and "count_list (errors (syncResult env s)) (removedMessage (id' (heap s r))) =
           (if 3 \<le> retryCount (heap s r) + 1 then 1 else 0)"
    and "ids_distinct (afterSync env s)"
    and "\<not> syncInProgress (afterSync env s)" and "isOnline (afterSync env s)"
proof -
  let ?rs = "filter (\<lambda>x. \<not> synced (heap s x)) (actionQueue s)"
  let ?p = "(s\<lparr>syncInProgress := True\<rparr>, 0, [], []) :: pass"
  note run = syncData_runs [OF assms(2,3), of env]
  have rp: "runPass env s = drain (simulatedFailures env) 0 ?rs ?p"
    by (simp add: runPass_def pending_def passStart_def)
  have a1: "ids_distinct (pstate ?p)" using assms(1) by simp
  have a2: "set ?rs \<subseteq> set (actionQueue (pstate ?p))" by auto
  have a3: "distinct ?rs" using ids_distinct_refs [OF assms(1)] by simp
  have a4: "r \<in> set ?rs" using assms(4,5) by simp
  have a5: "(r, True) \<notin> set (pcalls (drain (simulatedFailures env) 0 ?rs ?p))"
    using assms(6) by (simp add: run(1) rp)
  note t = drain_target [OF a1 a2 a3 a4 a5]
  have refs: "map fst (submitted env s) = ?rs"
    by (rule submitted_refs [OF assms(2,3)])
  have "r \<in> fst ` set (submitted env s)"
    using a4 refs by (metis set_map)
  then obtain ok where "(r, ok) \<in> set (submitted env s)" by auto
  with assms(6) show "(r, False) \<in> set (submitted env s)" by (cases ok) auto
  show "count_list (map fst (submitted env s)) r = 1"
    unfolding refs by (rule count_list_distinct [OF a3 a4])
  show "retryCount (heap (afterSync env s) r) = retryCount (heap s r) + 1"
    using t by (simp add: run(5) rp)
  show "id' (heap (afterSync env s) r) = id' (heap s r)"
    by (simp add: run(5) rp)
  show "\<not> synced (heap (afterSync env s) r)"
    using t assms(5) by (simp add: run(5) rp)
  show "(r \<in> set (actionQueue (afterSync env s))) = (retryCount (heap s r) + 1 < 3)"
    using t assms(5) by (simp add: run(6) rp)
  show "count_list (errors (syncResult env s)) (removedMessage (id' (heap s r))) =
           (if 3 \<le> retryCount (heap s r) + 1 then 1 else 0)"
    using t by (simp add: run(2) rp)
  have "ids_distinct (pstate (runPass env s))" using t by (simp add: rp)
  then show "ids_distinct (afterSync env s)"
    by (simp add: ids_distinct_def run(5,6) distinct_map_filter)
  show "\<not> syncInProgress (afterSync env s)" by (simp add: run(8))
  show "isOnline (afterSync env s)" using assms(3) by (simp add: isOnline_def run(9))
qed

text \<open>An object that is synced, or no longer queued, is in no later pass.\<close>

lemma pass_settled:
  assumes "synced (heap s r) \<or> r \<notin> set (actionQueue s)"
  shows "r \<notin> fst ` set (submitted env s)"
    and "synced (heap (afterSync env s) r) \<or> r \<notin> set (actionQueue (afterSync env s))"
proof -
  show "r \<notin> fst ` set (submitted env s)"
  proof (cases "\<not> syncInProgress s \<and> isOnline s")
    case True
    then have "map fst (submitted env s) = filter (\<lambda>x. \<not> synced (heap s x)) (actionQueue s)"
      by (simp add: submitted_refs)
    then have "fst ` set (submitted env s) = {x \<in> set (actionQueue s). \<not> synced (heap s x)}"
      by (metis set_filter set_map)
    with assms show ?thesis by auto
  next
    case False
    then show ?thesis using submitted_rejected [of s env] by auto
  qed
  show "synced (heap (afterSync env s) r) \<or> r \<notin> set (actionQueue (afterSync env s))"
  proof (cases "\<not> syncInProgress s \<and> isOnline s")
    case True
    then have run: "\<not> syncInProgress s" "isOnline s" by auto
    have 1: "synced (heap s r) \<Longrightarrow> synced (heap (pstate (runPass env s)) r)"
      using drain_synced [of "(s\<lparr>syncInProgress := True\<rparr>, 0, [], [])" r]
      by (simp add: runPass_def pending_def passStart_def)
    have 2: "set (actionQueue (pstate (runPass env s))) \<subseteq> set (actionQueue s)"
      using drain_queue [of "simulatedFailures env" 0 _ "(s\<lparr>syncInProgress := True\<rparr>, 0, [], [])"]
      by (simp add: runPass_def pending_def passStart_def)
    from assms 1 2 show ?thesis by (auto simp: syncData_runs(5,6) [OF run])
  next
    case False
    then show ?thesis using submitted_rejected [of s env] assms by auto
  qed
qed

lemma queueAction_fields:
  "actionQueue (snd (queueAction env a s)) = actionQueue s @ [nextRef s]"
  "nextRef (snd (queueAction env a s)) = Suc (nextRef s)"
  "heap (snd (queueAction env a s)) = (heap s)(nextRef s := queued (env, a))"
  "syncInProgress (snd (queueAction env a s)) = syncInProgress s"
  "isOnlineStatus (snd (queueAction env a s)) = isOnlineStatus s"
  by (simp_all add: queueAction_def Let_def queued_def)

lemma nextRef_afterSync: "nextRef (afterSync env s) = nextRef s"
proof (cases "\<not> syncInProgress s \<and> isOnline s")
  case True
  then show ?thesis by (simp add: syncData_runs(10))
next
  case False
  then show ?thesis using submitted_rejected [of s env] by auto
qed

text \<open>No operation submits a settled object, and it stays settled.\<close>

lemma perform_settled:
  assumes "settled r s"
  shows "r \<notin> fst ` set (fst (perform x s))" and "settled r (snd (perform x s))"
proof -
  from assms have a: "r < nextRef s" "synced (heap s r) \<or> r \<notin> set (actionQueue s)"
    by (simp_all add: settled_def)
  show "r \<notin> fst ` set (fst (perform x s))"
    using pass_settled(1) [OF a(2)] by (cases x) simp_all
  show "settled r (snd (perform x s))"
  proof (cases x)
    case (QueueAction env action)
    then show ?thesis using a by (auto simp: settled_def queueAction_fields)
  next
    case (MarkActionSynced i)
    then show ?thesis using a markActionSynced_synced [of s r i] by (auto simp: settled_def)
  next
    case (RemoveAction i)
    then show ?thesis using a removeAction_queue [of i s] by (auto simp: settled_def)
  next
    case ClearQueue
    then show ?thesis using a by (simp add: settled_def clearQueue_def)
  next
    case (SyncData env)
    then show ?thesis
      using a pass_settled(2) [OF a(2), of env] by (simp add: settled_def nextRef_afterSync)
  qed
qed

lemma perform_all_settled: "settled r s \<Longrightarrow> r \<notin> fst ` set (perform_all xs s)"
proof (induction xs arbitrary: s)
  case Nil
  then show ?case by simp
next
  case (Cons x xs)
  from perform_settled [OF Cons.prems, of x] Cons.IH [of "snd (perform x s)"]
  show ?case by (simp add: image_Un)
qed

subsection \<open>At most once\<close>

text \<open>
  Claim C5. In every state, every action that a pass submits to \<^verbatim>\<open>processAction\<close> had
  \<^verbatim>\<open>synced = false\<close> when the pass began: a synced action is not submitted. When the
  pass runs (no pass in progress, online), the queue at its end holds no synced
  action, and the store holds the contents of exactly that queue under the queue's key;
  so does \<^verbatim>\<open>localStorage\<close> where it exists and accepts the write. And an action that is
  allocated and synced is never submitted again, whatever operations follow (passes,
  \<^verbatim>\<open>queueAction\<close>, \<^verbatim>\<open>markActionSynced\<close>, \<^verbatim>\<open>removeAction\<close>, \<^verbatim>\<open>clearQueue\<close>, in any
  order).
\<close>

theorem synced_never_resubmitted:
  "(\<forall>x \<in> set (map fst (submitted env s)). \<not> synced (heap s x)) \<and>
   (\<not> syncInProgress s \<and> isOnline s \<longrightarrow>
      list_all (\<lambda>a. \<not> synced a) (queueContents (afterSync env s)) \<and>
      storage (afterSync env s) (STORAGE_PREFIX @ ''actionQueue'') =
        Some (SQueue (queueContents (afterSync env s))) \<and>
      (\<forall>ls. localStorage (afterSync env s) = Some ls \<and>
            \<not> quotaExceeded s (STORAGE_PREFIX @ ''actionQueue'')
                 (SQueue (queueContents (afterSync env s))) \<longrightarrow>
            ls (STORAGE_PREFIX @ ''actionQueue'') = Some (SQueue (queueContents (afterSync env s))))) \<and>
   (r < nextRef s \<and> synced (heap s r) \<longrightarrow> r \<notin> fst ` set (perform_all ops s))"
proof -
  have 1: "\<forall>x \<in> set (map fst (submitted env s)). \<not> synced (heap s x)"
  proof (cases "\<not> syncInProgress s \<and> isOnline s")
    case True
    then show ?thesis by (simp add: submitted_refs)
  next
    case False
    then show ?thesis using submitted_rejected [of s env] by auto
  qed
  have 2: "list_all (\<lambda>a. \<not> synced a) (queueContents (afterSync env s))"
    if "\<not> syncInProgress s" "isOnline s"
    using that by (simp add: queueContents_def syncData_runs(5,6) list_all_iff)
  have 3: "r \<notin> fst ` set (perform_all ops s)"
    if "r < nextRef s" "synced (heap s r)"
    using that perform_all_settled [of r s ops] by (simp add: settled_def)
  have 4: "\<forall>ls. localStorage (afterSync env s) = Some ls \<and>
            \<not> quotaExceeded s (STORAGE_PREFIX @ ''actionQueue'')
                 (SQueue (queueContents (afterSync env s))) \<longrightarrow>
            ls (STORAGE_PREFIX @ ''actionQueue'') = Some (SQueue (queueContents (afterSync env s)))"
    if "\<not> syncInProgress s" "isOnline s"
    using syncData_runs(11) [OF that] by blast
  from 1 2 3 4 show ?thesis by (simp add: syncData_runs(7))
qed

lemmas eval_defs = syncData_def afterSync_def submitted_def syncResult_def isOnline_def Let_def
  loopBody_def processAction_def failedMessage_def removedMessage_def persistQueue_def storeData_def
  queueContents_def STORAGE_PREFIX_def markActionSynced_def removeAction_def splice1_def ids_distinct_def

theorem synced_never_resubmitted_witness:
  "synced (heap stateMixed 0) \<and> \<not> synced (heap stateMixed 1) \<and>
   submitted env0 stateMixed = [(1, True)] \<and>
   queueContents (afterSync env0 stateMixed) = [] \<and>
   storage (afterSync env0 stateMixed) (STORAGE_PREFIX @ ''actionQueue'') = Some (SQueue []) \<and>
   (\<exists>ls. localStorage (afterSync env0 stateMixed) = Some ls \<and>
         ls (STORAGE_PREFIX @ ''actionQueue'') = Some (SQueue [])) \<and>
   0 \<notin> fst ` set (perform_all [SyncData env0, QueueAction qenv0 input0, SyncData envFail] stateMixed)"
proof -
  have run: "\<not> syncInProgress stateMixed \<and> isOnline stateMixed"
    by (simp add: stateMixed_def statePair_def state0_def isOnline_def)
  have s0: "synced (heap stateMixed 0)" "\<not> synced (heap stateMixed 1)" "0 < nextRef stateMixed"
    by (simp_all add: stateMixed_def statePair_def state0_def action0_def action1_def)
  have sub: "submitted env0 stateMixed = [(1, True)]"
    by (simp add: eval_defs stateMixed_def statePair_def state0_def env0_def action0_def action1_def)
  have q: "actionQueue (afterSync env0 stateMixed) = []"
    by (simp add: eval_defs stateMixed_def statePair_def state0_def env0_def action0_def action1_def)
  have l: "\<exists>ls. localStorage (afterSync env0 stateMixed) = Some ls"
    by (simp add: eval_defs stateMixed_def statePair_def state0_def env0_def action0_def action1_def)
  have k: "\<not> quotaExceeded stateMixed (STORAGE_PREFIX @ ''actionQueue'') (SQueue [])"
    by (simp add: stateMixed_def statePair_def state0_def)
  from synced_never_resubmitted
         [of env0 stateMixed 0 "[SyncData env0, QueueAction qenv0 input0, SyncData envFail]"]
       run s0 sub q l k
  show ?thesis
    by (auto simp: queueContents_def)
qed

subsection \<open>Order of submission\<close>

lemma allocated_queueAction: "allocated s \<Longrightarrow> allocated (snd (queueAction env a s))"
  by (auto simp: allocated_def queueAction_fields list_all_iff)

lemma queueContents_queueAction:
  "allocated s \<Longrightarrow>
     queueContents (snd (queueAction env a s)) = queueContents s @ [queued (env, a)]"
  by (auto simp: allocated_def queueContents_def queueAction_fields list_all_iff)

lemma enqueue_all_contents:
  "allocated s \<Longrightarrow>
     queueContents (enqueue_all inputs s) = queueContents s @ map queued inputs \<and>
     syncInProgress (enqueue_all inputs s) = syncInProgress s \<and>
     isOnlineStatus (enqueue_all inputs s) = isOnlineStatus s"
proof (induction inputs arbitrary: s)
  case Nil
  then show ?case by simp
next
  case (Cons x inputs)
  obtain env a where x: "x = (env, a)" by (cases x)
  from Cons.IH [OF allocated_queueAction [OF Cons.prems, of env a]]
  show ?case
    by (simp add: x queueContents_queueAction [OF Cons.prems] queueAction_fields)
qed

text \<open>
  Claim C6. \<^verbatim>\<open>queueAction\<close> appends at the tail: after a sequence of inputs is
  enqueued, the queue holds the former contents followed by the new actions in the
  order of the calls. The pass that follows submits the pending actions in the order
  of the queue, front to back: first the actions that were pending before, then the new
  ones in enqueue order; the same holds for the actions of any one \<^verbatim>\<open>entityId\<close>, which
  form a subsequence. When the loop reaches an action \<open>r\<close> (the pending list being
  \<open>pre @ r # post\<close>), every earlier action whose call succeeded is already marked
  synced, the ids being distinct.
\<close>

theorem same_entity_order:
  "(allocated s \<and> \<not> syncInProgress s \<and> isOnline s \<longrightarrow>
      queueContents (enqueue_all inputs s) = queueContents s @ map queued inputs \<and>
      map (heap (enqueue_all inputs s)) (map fst (submitted env (enqueue_all inputs s))) =
        filter (\<lambda>a. \<not> synced a) (queueContents s) @ map queued inputs \<and>
      (\<forall>e. filter (\<lambda>a. entityId a = e)
              (map (heap (enqueue_all inputs s)) (map fst (submitted env (enqueue_all inputs s)))) =
            filter (\<lambda>a. entityId a = e) (filter (\<lambda>a. \<not> synced a) (queueContents s)) @
            filter (\<lambda>a. entityId a = e) (map queued inputs))) \<and>
   (ids_distinct s \<and> \<not> syncInProgress s \<and> isOnline s \<and> pending s = pre @ r # post \<longrightarrow>
      submitted env s =
        pcalls (drain (simulatedFailures env) (Suc (length pre)) post
                 (loopBody (simulatedFailures env (length pre)) r
                    (drain (simulatedFailures env) 0 pre (passStart s)))) \<and>
      (\<forall>x \<in> set pre.
         (x, True) \<in> set (pcalls (drain (simulatedFailures env) 0 pre (passStart s))) \<longrightarrow>
         synced (heap (pstate (drain (simulatedFailures env) 0 pre (passStart s))) x)))"
proof -
  let ?s' = "enqueue_all inputs s"
  have A: "queueContents ?s' = queueContents s @ map queued inputs \<and>
      map (heap ?s') (map fst (submitted env ?s')) =
        filter (\<lambda>a. \<not> synced a) (queueContents s) @ map queued inputs \<and>
      (\<forall>e. filter (\<lambda>a. entityId a = e) (map (heap ?s') (map fst (submitted env ?s'))) =
            filter (\<lambda>a. entityId a = e) (filter (\<lambda>a. \<not> synced a) (queueContents s)) @
            filter (\<lambda>a. entityId a = e) (map queued inputs))"
    if h: "allocated s" "\<not> syncInProgress s" "isOnline s"
  proof -
    note ec = enqueue_all_contents [OF h(1), of inputs]
    have run: "\<not> syncInProgress ?s'" "isOnline ?s'"
      using ec h(2,3) by (simp_all add: isOnline_def)
    have ns: "filter (\<lambda>a. \<not> synced a) (map queued inputs) = map queued inputs"
      by (induction inputs) (auto simp: queued_def)
    have "map (heap ?s') (map fst (submitted env ?s')) =
            filter (\<lambda>a. \<not> synced a) (queueContents s) @ map queued inputs"
      using submitted_contents [OF run, of env] ec ns by simp
    then show ?thesis using ec by simp
  qed
  have B: "submitted env s =
        pcalls (drain (simulatedFailures env) (Suc (length pre)) post
                 (loopBody (simulatedFailures env (length pre)) r
                    (drain (simulatedFailures env) 0 pre (passStart s)))) \<and>
      (\<forall>x \<in> set pre.
         (x, True) \<in> set (pcalls (drain (simulatedFailures env) 0 pre (passStart s))) \<longrightarrow>
         synced (heap (pstate (drain (simulatedFailures env) 0 pre (passStart s))) x))"
    if h: "ids_distinct s" "\<not> syncInProgress s" "isOnline s" "pending s = pre @ r # post"
  proof -
    have rp: "runPass env s = drain (simulatedFailures env) 0 (pre @ r # post) (passStart s)"
      using h(4) by (simp add: runPass_def pending_def passStart_def)
    have 1: "submitted env s =
        pcalls (drain (simulatedFailures env) (Suc (length pre)) post
                 (loopBody (simulatedFailures env (length pre)) r
                    (drain (simulatedFailures env) 0 pre (passStart s))))"
      by (simp add: syncData_runs(1) [OF h(2,3)] rp drain_append)
    have d: "distinct (pre @ r # post)"
      using ids_distinct_refs [OF h(1)] h(4) [symmetric] by (simp add: pending_def)
    have sub: "set (pre @ r # post) \<subseteq> set (actionQueue s)"
      using h(4) [symmetric] by (auto simp: pending_def)
    have a1: "ids_distinct (pstate (passStart s))" using h(1) by (simp add: passStart_def)
    have a2: "set pre \<subseteq> set (actionQueue (pstate (passStart s)))"
      using sub by (simp add: passStart_def)
    have a3: "distinct pre" using d by simp
    have a6: "\<And>x. (x, True) \<notin> set (pcalls (passStart s))" by (simp add: passStart_def)
    have 2: "\<forall>x \<in> set pre.
         (x, True) \<in> set (pcalls (drain (simulatedFailures env) 0 pre (passStart s))) \<longrightarrow>
         synced (heap (pstate (drain (simulatedFailures env) 0 pre (passStart s))) x)"
      using drain_marks [OF a1 a2 a3 _ _ a6] by blast
    from 1 2 show ?thesis by simp
  qed
  from A B show ?thesis by blast
qed

theorem same_entity_order_witness:
  "map type (map (heap (enqueue_all [(qenv0, input0)] state0))
                 (map fst (submitted env0 (enqueue_all [(qenv0, input0)] state0)))) = [CREATE, UPDATE] \<and>
   map entityId (map (heap (enqueue_all [(qenv0, input0)] state0))
                 (map fst (submitted env0 (enqueue_all [(qenv0, input0)] state0)))) = [''tmp-1'', ''tmp-1''] \<and>
   pending statePair = [0, 1] \<and>
   pcalls (drain (simulatedFailures env0) 0 [0] (passStart statePair)) = [(0, True)] \<and>
   synced (heap (pstate (drain (simulatedFailures env0) 0 [0] (passStart statePair))) 0)"
proof -
  have a: "allocated state0 \<and> \<not> syncInProgress state0 \<and> isOnline state0"
    by (simp add: allocated_def state0_def isOnline_def)
  have c: "queueContents state0 = [action0]" by (simp add: queueContents_def state0_def)
  have 1: "map (heap (enqueue_all [(qenv0, input0)] state0))
                 (map fst (submitted env0 (enqueue_all [(qenv0, input0)] state0))) =
           [action0, queued (qenv0, input0)]"
    using same_entity_order [of state0 "[(qenv0, input0)]" env0 "[0]" 1 "[]"] a c
    by (simp add: action0_def)
  have b: "ids_distinct statePair \<and> \<not> syncInProgress statePair \<and> isOnline statePair \<and>
           pending statePair = [0] @ 1 # []"
    by (simp add: ids_distinct_def pending_def statePair_def state0_def isOnline_def action0_def action1_def)
  have p: "pcalls (drain (simulatedFailures env0) 0 [0] (passStart statePair)) = [(0, True)]"
    by (simp add: loopBody_calls succeeds_def processAction_def passStart_def statePair_def state0_def
          env0_def action0_def)
  have 2: "synced (heap (pstate (drain (simulatedFailures env0) 0 [0] (passStart statePair))) 0)"
    using same_entity_order [of statePair "[]" env0 "[0]" 1 "[]"] b p
    by simp
  from 1 2 b p show ?thesis by (simp add: queued_def action0_def input0_def)
qed

subsection \<open>Bounded retry\<close>

text \<open>
  Claim C1. Take a queued action \<open>r\<close> that is pending, in a queue with distinct ids,
  and three passes that run one after the other (online, none in progress) in which
  the call for \<open>r\<close> never succeeds. A failed attempt increments \<^verbatim>\<open>retryCount\<close>, and
  \<open>r\<close> is removed exactly when the count reaches 3; the removal message of its id is
  then in the errors of the pass exactly once, and otherwise not at all. So for an
  action that starts with \<^verbatim>\<open>retryCount = 0\<close>, as \<^verbatim>\<open>queueAction\<close> creates it: each of the
  three passes submits \<open>r\<close> and fails, the count becomes 1, 2 and 3; after the first
  and the second pass \<open>r\<close> is still queued and no error names it; the third pass
  removes \<open>r\<close> from the queue (and from the stored queue), and its errors hold
  \<^verbatim>\<open>Action <id> removed after 3 failed attempts\<close> exactly once (every failed attempt also
  adds a \<^verbatim>\<open>Failed to sync\<close> message, which does not name the action). Nothing that
  follows submits \<open>r\<close> again: no sequence of passes and queue operations does.
\<close>

theorem bounded_retry:
  assumes "ids_distinct s" and "\<not> syncInProgress s" and "isOnline s"
    and "r \<in> set (actionQueue s)" and "\<not> synced (heap s r)" and "r < nextRef s"
    and "s1 = afterSync e1 s" and "s2 = afterSync e2 s1" and "s3 = afterSync e3 s2"
    and "(r, True) \<notin> set (submitted e1 s)" and "(r, True) \<notin> set (submitted e2 s1)"
    and "(r, True) \<notin> set (submitted e3 s2)"
  shows "(r, False) \<in> set (submitted e1 s) \<and>
         retryCount (heap s1 r) = retryCount (heap s r) + 1 \<and>
         (r \<in> set (actionQueue s1)) = (retryCount (heap s r) + 1 < 3) \<and>
         count_list (errors (syncResult e1 s)) (removedMessage (id' (heap s r))) =
           (if 3 \<le> retryCount (heap s r) + 1 then 1 else 0) \<and>
         (retryCount (heap s r) = 0 \<longrightarrow>
            retryCount (heap s1 r) = 1 \<and> r \<in> set (actionQueue s1) \<and>
              removedMessage (id' (heap s r)) \<notin> set (errors (syncResult e1 s)) \<and>
            (r, False) \<in> set (submitted e2 s1) \<and> retryCount (heap s2 r) = 2 \<and>
              r \<in> set (actionQueue s2) \<and>
              removedMessage (id' (heap s r)) \<notin> set (errors (syncResult e2 s1)) \<and>
            (r, False) \<in> set (submitted e3 s2) \<and> retryCount (heap s3 r) = 3 \<and>
              r \<notin> set (actionQueue s3) \<and>
              count_list (errors (syncResult e3 s2)) (removedMessage (id' (heap s r))) = 1 \<and>
              storage s3 (STORAGE_PREFIX @ ''actionQueue'') = Some (SQueue (queueContents s3)) \<and>
            r \<notin> fst ` set (perform_all later s3))"
proof -
  note f1 = assms(10) and f2 = assms(11) and f3 = assms(12)
  note p1 = pass_failing [OF assms(1-5) f1, folded assms(7)]
  have three: "retryCount (heap s1 r) = 1 \<and> r \<in> set (actionQueue s1) \<and>
              removedMessage (id' (heap s r)) \<notin> set (errors (syncResult e1 s)) \<and>
            (r, False) \<in> set (submitted e2 s1) \<and> retryCount (heap s2 r) = 2 \<and>
              r \<in> set (actionQueue s2) \<and>
              removedMessage (id' (heap s r)) \<notin> set (errors (syncResult e2 s1)) \<and>
            (r, False) \<in> set (submitted e3 s2) \<and> retryCount (heap s3 r) = 3 \<and>
              r \<notin> set (actionQueue s3) \<and>
              count_list (errors (syncResult e3 s2)) (removedMessage (id' (heap s r))) = 1 \<and>
              storage s3 (STORAGE_PREFIX @ ''actionQueue'') = Some (SQueue (queueContents s3)) \<and>
            r \<notin> fst ` set (perform_all later s3)"
    if z: "retryCount (heap s r) = 0"
  proof -
    have q1: "r \<in> set (actionQueue s1)" using p1(6) z by simp
    note p2 = pass_failing [OF p1(8,9,10) q1 p1(5) f2, folded assms(8)]
    have q2: "r \<in> set (actionQueue s2)" using p2(6) p1(3) z by simp
    note p3 = pass_failing [OF p2(8,9,10) q2 p2(5) f3, folded assms(9)]
    have q3: "r \<notin> set (actionQueue s3)" using p3(6) p2(3) p1(3) z by simp
    have c1: "removedMessage (id' (heap s r)) \<notin> set (errors (syncResult e1 s))"
      using p1(7) z by (simp add: count_list_0_iff)
    have c2: "removedMessage (id' (heap s r)) \<notin> set (errors (syncResult e2 s1))"
      using p2(7) p1(3,4) z by (simp add: count_list_0_iff)
    have c3: "count_list (errors (syncResult e3 s2)) (removedMessage (id' (heap s r))) = 1"
      using p3(7) p2(3,4) p1(3,4) z by simp
    have "nextRef s3 = nextRef s"
      by (simp add: assms(7,8,9) nextRef_afterSync)
    then have later: "r \<notin> fst ` set (perform_all later s3)"
      using perform_all_settled [of r s3 later] q3 assms(6) by (simp add: settled_def)
    have st: "storage s3 (STORAGE_PREFIX @ ''actionQueue'') = Some (SQueue (queueContents s3))"
      unfolding assms(9) by (rule syncData_runs(7) [OF p2(9,10)])
    from p1(3) p2(1,3) p3(1,3) q1 q2 q3 c1 c2 c3 st later z
    show ?thesis by simp
  qed
  from p1(1,3,6,7) three show ?thesis by simp
qed

lemma step1: "syncData envFail state0 =
   ((\<lparr>success = False, syncedActions = 0,
      errors = [''Failed to sync CREATE plot: Error: Simulated network error'']\<rparr>, [(0, False)]),
    failedOnce)"
  by (simp add: eval_defs state0_def failedOnce_def envFail_def action0_def)

lemma step2: "syncData envFail failedOnce =
   ((\<lparr>success = False, syncedActions = 0,
      errors = [''Failed to sync CREATE plot: Error: Simulated network error'']\<rparr>, [(0, False)]),
    failedTwice)"
  by (simp add: eval_defs state0_def failedOnce_def failedTwice_def envFail_def action0_def
        numeral_2_eq_2)

lemma step3: "syncData envFail failedTwice =
   ((\<lparr>success = False, syncedActions = 0,
      errors = [''Failed to sync CREATE plot: Error: Simulated network error'',
                ''Action a1 removed after 3 failed attempts'']\<rparr>, [(0, False)]),
    dropped)"
  by (simp add: eval_defs state0_def dropped_def failedTwice_def envFail_def action0_def
        numeral_3_eq_3)

theorem bounded_retry_witness:
  "submitted envFail state0 = [(0, False)] \<and>
   retryCount (heap (afterSync envFail state0) 0) = 1 \<and>
   0 \<in> set (actionQueue (afterSync envFail state0)) \<and>
   retryCount (heap (afterSync envFail (afterSync envFail state0)) 0) = 2 \<and>
   0 \<in> set (actionQueue (afterSync envFail (afterSync envFail state0))) \<and>
   retryCount (heap (afterSync envFail (afterSync envFail (afterSync envFail state0))) 0) = 3 \<and>
   actionQueue (afterSync envFail (afterSync envFail (afterSync envFail state0))) = [] \<and>
   errors (syncResult envFail (afterSync envFail (afterSync envFail state0))) =
     [''Failed to sync CREATE plot: Error: Simulated network error'',
      ''Action a1 removed after 3 failed attempts''] \<and>
   count_list (errors (syncResult envFail (afterSync envFail (afterSync envFail state0))))
     (removedMessage ''a1'') = 1 \<and>
   0 \<notin> fst ` set (perform_all [QueueAction qenv0 input0, SyncData env0]
                        (afterSync envFail (afterSync envFail (afterSync envFail state0))))"
proof -
  have h1: "ids_distinct state0" by (simp add: ids_distinct_def state0_def)
  have h2: "\<not> syncInProgress state0" by (simp add: state0_def)
  have h3: "isOnline state0" by (simp add: state0_def isOnline_def)
  have h4: "0 \<in> set (actionQueue state0)" by (simp add: state0_def)
  have h5: "\<not> synced (heap state0 0)" by (simp add: state0_def action0_def)
  have h6: "retryCount (heap state0 0) = 0" by (simp add: state0_def action0_def)
  have h0: "0 < nextRef state0" by (simp add: state0_def)
  have h7: "failedOnce = afterSync envFail state0" by (simp add: afterSync_def step1)
  have h8: "failedTwice = afterSync envFail failedOnce" by (simp add: afterSync_def step2)
  have h9: "dropped = afterSync envFail failedTwice" by (simp add: afterSync_def step3)
  have h10: "(0, True) \<notin> set (submitted envFail state0)"
    by (simp add: submitted_def step1)
  have h11: "(0, True) \<notin> set (submitted envFail failedOnce)"
    by (simp add: submitted_def step2)
  have h12: "(0, True) \<notin> set (submitted envFail failedTwice)"
    by (simp add: submitted_def step3)
  have i: "id' (heap state0 0) = ''a1''" by (simp add: state0_def action0_def)
  have q: "actionQueue dropped = []" by (simp add: dropped_def)
  from bounded_retry [OF h1 h2 h3 h4 h5 h0 h7 h8 h9 h10 h11 h12,
         of "[QueueAction qenv0 input0, SyncData env0]"] h6
  show ?thesis
    unfolding h7 [symmetric] h8 [symmetric] h9 [symmetric]
    by (simp add: i q submitted_def syncResult_def step1 step2 step3 del: perform_all.simps)
qed

end
